theory Spec2Isabelle
  imports Main "HOL-Library.Multiset"
begin

section \<open>Data model (main.go, lines 17-46)\<close>

text \<open>
  The program lists the IAM access keys of the users of several AWS accounts: it reads
  a list of accounts and roles, assumes each role, lists the users of the account, lists
  the keys of every user with a pool of workers, and writes one CSV row per user that has
  keys. This theory embeds it function by function. Log entries below the fatal level do
  not change what the program computes and are left out.

  Go strings are byte sequences and \<open>len\<close> counts bytes; an Isabelle \<open>string\<close> is a
  list of 8-bit characters, so \<open>length\<close> on it is Go's \<open>len\<close>.

  The scoped IAM client of an account is built from the three strings of the temporary
  credentials (main.go, lines 97-111); the model identifies the client with them. A
  successful reply of \<open>AssumeRole\<close> is taken to hold the credentials.
\<close>

record credentials =
  AccessKeyId :: string
  SecretAccessKey :: string
  SessionToken :: string

type_synonym iamClient = credentials

record inputUser =
  iamClient :: iamClient
  name :: string
  accountId :: string

record accessKey =
  keyId :: string
  createdDate :: string

record outputUser =
  name :: string
  accountId :: string
  accessKeys :: "accessKey list"

record options =
  awsProfileName :: string
  showDebug :: bool
  accountListFile :: string
  outputFile :: string
  numOfWorker :: int

text \<open>
  The process ends early in two ways: a fatal log entry (\<open>logger.Fatal\<close> of zap with a
  message and key/value fields, or \<open>log.Fatalf\<close> with a formatted message and no
  fields), or a runtime panic (an index out of range).
\<close>

record logEntry =
  message :: string
  zapFields :: "(string \<times> string) list"

datatype abort = Fatal logEntry | Panic string

section \<open>The remote services and the files, as the program sees them\<close>

text \<open>
  A listing reply of the SDK: the items of the page, the \<open>IsTruncated\<close> flag and the
  \<open>Marker\<close> to pass to the next request. The fields the program dereferences
  (\<open>UserName\<close>, \<open>AccessKeyId\<close>, \<open>CreateDate\<close>) are taken as present, as the service
  always sends them.
\<close>

record 'a listOutput =
  Items :: "'a list"
  IsTruncated :: bool
  Marker :: "string option"

record user =
  UserName :: string

record 't accessKeyMetadata =
  AccessKeyId :: string
  CreateDate :: 't

text \<open>What \<open>csv.Reader.Read\<close> returns before the end of the file.\<close>

datatype readResult =
  Record "string list option"
| ParseError nat nat string
| ReadError string

text \<open>
  Everything outside the program is a parameter: each remote operation is a function of
  its request that returns an error text (\<open>Inl\<close>) or a reply; a file to read is the
  sequence of results its reader gives; \<open>Format\<close> is \<open>time.Time.Format\<close>, applied to
  a time and a layout. \<open>csv.Writer\<close> writes through a buffer: \<open>WriteRecord\<close> and
  \<open>FlushError\<close> are the errors of \<open>Write\<close> and of \<open>Flush\<close>, and \<open>Reached\<close> gives, of the
  records handed to the writer before a failure, those that had left the buffer for the
  file (none, for a report smaller than the buffer).
\<close>

record 't env =
  LoadDefaultConfig :: "string \<Rightarrow> string option"
  OpenFile :: "string \<Rightarrow> string + readResult list"
  AssumeRole :: "string \<Rightarrow> string + credentials"
  LoadAssumedConfig :: "credentials \<Rightarrow> string option"
  ListUsers :: "iamClient \<Rightarrow> string option \<Rightarrow> string + user listOutput"
  ListAccessKeys :: "iamClient \<Rightarrow> string \<Rightarrow> string option \<Rightarrow> string + 't accessKeyMetadata listOutput"
  Format :: "'t \<Rightarrow> string \<Rightarrow> string"
  CreateFile :: "string \<Rightarrow> string option"
  WriteRecord :: "string list \<Rightarrow> string option"
  FlushError :: "string option"
  Reached :: "string list list \<Rightarrow> string list list"

text \<open>The remote calls made, in order, with their requests.\<close>

datatype call =
  AssumeRoleCall string
| ListUsersCall iamClient "string option"
| ListAccessKeysCall iamClient string "string option"

section \<open>Reading and validating the account list (unnamed/part_000, lines 11-79)\<close>

fun showNat :: "nat \<Rightarrow> string" where
  "showNat n =
     (if n < 10 then [char_of (48 + n)]
      else showNat (n div 10) @ [char_of (48 + n mod 10)])"

declare showNat.simps [simp del]

definition validateCSVAccountRoleData :: "string list option \<Rightarrow> string option" where
  "validateCSVAccountRoleData record =
     (case record of
        None \<Rightarrow> Some ''cannot read empty account role data''
      | Some [] \<Rightarrow> Some ''account role must contain some data''
      | Some (accountId' # rest) \<Rightarrow>
          if length (accountId' # rest) \<noteq> 2 then
            Some (''validation failed for account '' @ accountId'
                  @ '', the number of data for this account is not 2 columns'')
          else if length accountId' \<noteq> 12 then
            Some (''validation failed for account '' @ accountId'
                  @ '', the account id must be 12 characters'')
          else None)"

text \<open>
  The read loop of \<open>getAccountRoleListFromCSV\<close>: the end of the results is \<open>io.EOF\<close>.
  A nil record that passed validation cannot occur; the loop appends the record read.
\<close>

fun readRecords :: "readResult list \<Rightarrow> string list list \<Rightarrow> string + string list list" where
  "readRecords [] accountRoleList = Inr accountRoleList"
| "readRecords (ParseError line column err # rs) accountRoleList =
     Inl (''error when parsing csv in line '' @ showNat line @ '' column ''
          @ showNat column @ '', '' @ err)"
| "readRecords (ReadError err # rs) accountRoleList = Inl err"
| "readRecords (Record record # rs) accountRoleList =
     (case validateCSVAccountRoleData record of
        Some err \<Rightarrow> Inl err
      | None \<Rightarrow> readRecords rs (accountRoleList @ [case record of Some r \<Rightarrow> r | None \<Rightarrow> []]))"

definition getAccountRoleListFromCSV :: "'t env \<Rightarrow> string \<Rightarrow> string + string list list" where
  "getAccountRoleListFromCSV env filename =
     (case OpenFile env filename of
        Inl err \<Rightarrow> Inl err
      | Inr results \<Rightarrow> readRecords results [])"

text \<open>
  What \<open>csv.Reader\<close> of the Go standard library, with the settings of \<open>csv.NewReader\<close>,
  returns for the rows of a file, each given with the line it starts on and its fields:
  the first row fixes the number of fields, and every later row with another number of
  fields is a parse error at column 1 of its line, "record on line \<open>n\<close>: wrong number of
  fields". Errors of quoting are not described here.
\<close>

fun csvRead :: "nat \<Rightarrow> (nat \<times> string list) list \<Rightarrow> readResult list" where
  "csvRead n [] = []"
| "csvRead n ((line, cols) # rows) =
     (if length cols = n then Record (Some cols)
      else ParseError line 1 (''record on line '' @ showNat line @ '': wrong number of fields''))
     # csvRead n rows"

definition csvReader :: "(nat \<times> string list) list \<Rightarrow> readResult list" where
  "csvReader rows =
     (case rows of
        [] \<Rightarrow> []
      | (line, cols) # rest \<Rightarrow> Record (Some cols) # csvRead (length cols) rest)"

text \<open>Indexing a slice out of range panics; \<open>None\<close> is that panic.\<close>

definition getRoleARN :: "string list \<Rightarrow> string option" where
  "getRoleARN accountRoleData =
     (case accountRoleData of
        accountId' # roleName # rest \<Rightarrow>
          Some (''arn:aws:iam::'' @ accountId' @ '':role/'' @ roleName)
      | _ \<Rightarrow> None)"

definition getAccountId :: "string list \<Rightarrow> string option" where
  "getAccountId accountRoleData =
     (case accountRoleData of accountId' # rest \<Rightarrow> Some accountId' | [] \<Rightarrow> None)"

section \<open>Enumerating the users of every account (main.go, lines 65-136)\<close>

text \<open>
  The user-listing loop of one account (lines 116-135). It follows the marker for as long
  as the reply is truncated, whatever the number of users in the page, and may never end:
  \<open>None\<close> is a loop that does not return. The arguments \<open>tr\<close> and \<open>inputUserList\<close> are
  the remote calls made and the users collected so far.
\<close>

partial_function (option) listUsersLoop ::
  "'t env \<Rightarrow> string \<Rightarrow> iamClient \<Rightarrow> string option \<Rightarrow> call list \<Rightarrow> inputUser list
   \<Rightarrow> (call list \<times> (abort + inputUser list)) option" where
  "listUsersLoop env accountId' assumeRoleIAMSvc marker tr inputUserList =
     (case ListUsers env assumeRoleIAMSvc marker of
        Inl err \<Rightarrow>
          Some (tr @ [ListUsersCall assumeRoleIAMSvc marker],
                Inl (Fatal \<lparr>message = ''error when listing user'',
                            zapFields = [(''error'', err)]\<rparr>))
      | Inr listUsersOutput \<Rightarrow>
          if IsTruncated listUsersOutput then
            listUsersLoop env accountId' assumeRoleIAMSvc (Marker listUsersOutput)
              (tr @ [ListUsersCall assumeRoleIAMSvc marker])
              (inputUserList @ map (\<lambda>user. \<lparr>iamClient = assumeRoleIAMSvc,
                                              inputUser.name = UserName user,
                                              inputUser.accountId = accountId'\<rparr>)
                                    (Items listUsersOutput))
          else
            Some (tr @ [ListUsersCall assumeRoleIAMSvc marker],
                  Inr (inputUserList @ map (\<lambda>user. \<lparr>iamClient = assumeRoleIAMSvc,
                                                  inputUser.name = UserName user,
                                                  inputUser.accountId = accountId'\<rparr>)
                                        (Items listUsersOutput))))"

text \<open>The loop over the accounts (lines 79-136), one iteration per record.\<close>

fun enumerateAccounts ::
  "'t env \<Rightarrow> string list list \<Rightarrow> call list \<Rightarrow> inputUser list
   \<Rightarrow> (call list \<times> (abort + inputUser list)) option" where
  "enumerateAccounts env [] tr inputUserList = Some (tr, Inr inputUserList)"
| "enumerateAccounts env (csvAccountRole # rest) tr inputUserList =
     (case getAccountId csvAccountRole of
        None \<Rightarrow> Some (tr, Inl (Panic ''index out of range''))
      | Some accountId' \<Rightarrow>
     (case getRoleARN csvAccountRole of
        None \<Rightarrow> Some (tr, Inl (Panic ''index out of range''))
      | Some roleARN \<Rightarrow>
     (case AssumeRole env roleARN of
        Inl err \<Rightarrow>
          Some (tr @ [AssumeRoleCall roleARN],
                Inl (Fatal \<lparr>message = ''error when doing assume role'',
                            zapFields = [(''role_arn'', roleARN), (''error'', err)]\<rparr>))
      | Inr tempCredentials \<Rightarrow>
     (case LoadAssumedConfig env tempCredentials of
        Some err \<Rightarrow>
          Some (tr @ [AssumeRoleCall roleARN],
                Inl (Fatal \<lparr>message = ''error when creating temporary config from the assumed role credentials'',
                            zapFields = [(''role_arn'', roleARN), (''error'', err)]\<rparr>))
      | None \<Rightarrow>
     (case listUsersLoop env accountId' tempCredentials None
             (tr @ [AssumeRoleCall roleARN]) inputUserList of
        None \<Rightarrow> None
      | Some (tr', Inl a) \<Rightarrow> Some (tr', Inl a)
      | Some (tr', Inr inputUserList') \<Rightarrow>
          enumerateAccounts env rest tr' inputUserList')))))"

text \<open>
  \<open>main\<close> up to line 138: the default configuration, the account list, the enumeration.
\<close>

definition enumeration ::
  "'t env \<Rightarrow> options \<Rightarrow> (call list \<times> (abort + inputUser list)) option" where
  "enumeration env opts =
     (case LoadDefaultConfig env (awsProfileName opts) of
        Some err \<Rightarrow>
          Some ([], Inl (Fatal \<lparr>message = ''error when loading default config'',
                                zapFields = [(''error'', err)]\<rparr>))
      | None \<Rightarrow>
     (case getAccountRoleListFromCSV env (accountListFile opts) of
        Inl err \<Rightarrow>
          Some ([], Inl (Fatal \<lparr>message = ''error when reading account list file'',
                                zapFields = [(''error'', err)]\<rparr>))
      | Inr csvAccountRoleList \<Rightarrow> enumerateAccounts env csvAccountRoleList [] []))"

section \<open>The work of a worker on one user (main.go, lines 177-248)\<close>

text \<open>
  The key-listing loop (lines 183-220). A page with keys is appended and the marker is
  followed when the reply is truncated; a page without keys ends the loop at once,
  truncated or not.
\<close>

partial_function (option) listAccessKeysLoop ::
  "'t env \<Rightarrow> inputUser \<Rightarrow> string option \<Rightarrow> call list \<Rightarrow> 't accessKeyMetadata list
   \<Rightarrow> (call list \<times> (abort + 't accessKeyMetadata list)) option" where
  "listAccessKeysLoop env inputUser marker tr outputAccessKeyList =
     (case ListAccessKeys env (iamClient inputUser) (inputUser.name inputUser) marker of
        Inl err \<Rightarrow>
          Some (tr @ [ListAccessKeysCall (iamClient inputUser) (inputUser.name inputUser) marker],
                Inl (Fatal \<lparr>message = ''error when listing access key, '' @ err,
                            zapFields = []\<rparr>))
      | Inr listAccessKeysOutput \<Rightarrow>
          if length (Items listAccessKeysOutput) \<noteq> 0 then
            (if IsTruncated listAccessKeysOutput then
               listAccessKeysLoop env inputUser (Marker listAccessKeysOutput)
                 (tr @ [ListAccessKeysCall (iamClient inputUser) (inputUser.name inputUser) marker])
                 (outputAccessKeyList @ Items listAccessKeysOutput)
             else
               Some (tr @ [ListAccessKeysCall (iamClient inputUser) (inputUser.name inputUser) marker],
                     Inr (outputAccessKeyList @ Items listAccessKeysOutput)))
          else
            Some (tr @ [ListAccessKeysCall (iamClient inputUser) (inputUser.name inputUser) marker],
                  Inr outputAccessKeyList))"

text \<open>
  What the worker sends for the keys collected (lines 222-248): a pointer to an
  \<open>outputUser\<close> when there is a key, nil (\<open>None\<close>) when there is none.
\<close>

definition toOutputUser :: "'t env \<Rightarrow> inputUser \<Rightarrow> 't accessKeyMetadata list \<Rightarrow> outputUser option" where
  "toOutputUser env inputUser outputAccessKeyList =
     (if length outputAccessKeyList \<noteq> 0 then
        Some \<lparr>outputUser.name = inputUser.name inputUser,
              outputUser.accountId = inputUser.accountId inputUser,
              accessKeys =
                map (\<lambda>ak. \<lparr>keyId = accessKeyMetadata.AccessKeyId ak,
                             createdDate = Format env (CreateDate ak) ''2006-01-02T15:04:05-07:00''\<rparr>)
                    outputAccessKeyList\<rparr>
      else None)"

definition workerItem ::
  "'t env \<Rightarrow> inputUser \<Rightarrow> (call list \<times> (abort + outputUser option)) option" where
  "workerItem env inputUser =
     (case listAccessKeysLoop env inputUser None [] [] of
        None \<Rightarrow> None
      | Some (tr, Inl a) \<Rightarrow> Some (tr, Inl a)
      | Some (tr, Inr outputAccessKeyList) \<Rightarrow>
          Some (tr, Inr (toOutputUser env inputUser outputAccessKeyList)))"

section \<open>Writing the report (unnamed/part_000, lines 81-113)\<close>

text \<open>
  A file is the list of the records written to it; the quoting done by \<open>csv.Writer\<close>
  is outside the model. \<open>os.Create\<close> truncates the file. When every write and the
  flush succeed the file holds all the records; after a failed write or flush it holds
  what had left the buffer by then.
\<close>

type_synonym files = "string \<rightharpoonup> string list list"

definition userRecord :: "outputUser \<Rightarrow> string list" where
  "userRecord user =
     [outputUser.accountId user, outputUser.name user]
     @ concat (map (\<lambda>key. [keyId key, createdDate key]) (accessKeys user))"

fun writeAll :: "'t env \<Rightarrow> outputUser list \<Rightarrow> string list list \<Rightarrow> string list list \<times> string option" where
  "writeAll env [] written = (written, None)"
| "writeAll env (user # userList) written =
     (case WriteRecord env (userRecord user) of
        Some err \<Rightarrow> (written, Some err)
      | None \<Rightarrow> writeAll env userList (written @ [userRecord user]))"

definition writeRecordsToCSV ::
  "'t env \<Rightarrow> string \<Rightarrow> outputUser list \<Rightarrow> files \<Rightarrow> files \<times> string option" where
  "writeRecordsToCSV env filename userList fs =
     (case CreateFile env filename of
        Some err \<Rightarrow> (fs, Some err)
      | None \<Rightarrow>
          (case writeAll env userList [] of
             (written, Some err) \<Rightarrow> (fs(filename \<mapsto> Reached env written), Some err)
           | (written, None) \<Rightarrow>
               (case FlushError env of
                  Some err \<Rightarrow> (fs(filename \<mapsto> Reached env written), Some err)
                | None \<Rightarrow> (fs(filename \<mapsto> written), None))))"

section \<open>The worker pool and the aggregator (main.go, lines 138-161 and 175-250)\<close>

text \<open>
  The goroutines are interleaved at their communications. The main goroutine is at one
  of four places: starting workers (the loop variable \<open>i\<close> of line 144), sending, with
  the number of users sent so far (line 148), receiving, with the number of results
  received so far (line 155), or past the receive loop. A worker waits at the
  \<open>range\<close> of line 176, is listing the keys of the user it took, is blocked on the send
  to \<open>resultChan\<close> (unbuffered: lines 236 and 247), or has left the \<open>range\<close> loop.

  Each user in \<open>inputUserChan\<close> carries the index at which \<open>main\<close> sent it. The index,
  the list \<open>received\<close> of all results received and the list \<open>takes\<close> of (worker, index)
  pairs are history only: no step depends on them.
\<close>

datatype mainPc = Spawning int | Submitting nat | Receiving nat | Returned

datatype wstate =
  Waiting
| Listing nat inputUser
| Sending nat "outputUser option"
| Exited

record poolState =
  pc :: mainPc
  workers :: "wstate list"
  inputUserChan :: "(nat \<times> inputUser) list"
  closed :: bool
  userList :: "outputUser list"
  exited :: "abort option"
  received :: "(nat \<times> outputUser option) list"
  takes :: "(nat \<times> nat) list"

definition initialPool :: poolState where
  "initialPool =
     \<lparr>pc = Spawning 1, workers = [], inputUserChan = [], closed = False, userList = [],
      exited = None, received = [], takes = []\<rparr>"

text \<open>
  A step of the main goroutine alone: start a worker, send a user (the channel has room
  for all of them, so the send never blocks), close the channel, or leave the receive
  loop after \<open>numberOfUsers\<close> receives. With fewer receives done it must wait for a
  worker. The loop variable of the start loop is an unbounded integer here: in Go it
  could only wrap around after \<open>2^63 - 1\<close> workers had been started.
\<close>

definition mainStep :: "int \<Rightarrow> inputUser list \<Rightarrow> poolState \<Rightarrow> poolState option" where
  "mainStep numOfWorker' inputUserList s =
     (case pc s of
        Spawning i \<Rightarrow>
          if i \<le> numOfWorker' then
            Some (s\<lparr>pc := Spawning (i + 1), workers := workers s @ [Waiting]\<rparr>)
          else Some (s\<lparr>pc := Submitting 0\<rparr>)
      | Submitting i \<Rightarrow>
          if i < length inputUserList then
            Some (s\<lparr>pc := Submitting (Suc i),
                    inputUserChan := inputUserChan s @ [(i, inputUserList ! i)]\<rparr>)
          else Some (s\<lparr>pc := Receiving 0, closed := True\<rparr>)
      | Receiving i \<Rightarrow>
          if i < length inputUserList then None else Some (s\<lparr>pc := Returned\<rparr>)
      | Returned \<Rightarrow> None)"

text \<open>
  A step of worker \<open>k\<close> alone (its \<open>id\<close> is \<open>k + 1\<close>): take the next user, leave when the
  channel is closed and empty, or finish listing. A failed listing ends the process
  (\<open>log.Fatalf\<close>, line 191).
\<close>

definition workerStep :: "'t env \<Rightarrow> nat \<Rightarrow> poolState \<Rightarrow> poolState option" where
  "workerStep env k s =
     (if k < length (workers s) then
        (case workers s ! k of
           Waiting \<Rightarrow>
             (case inputUserChan s of
                (i, inputUser) # rest \<Rightarrow>
                  Some (s\<lparr>workers := (workers s)[k := Listing i inputUser],
                          inputUserChan := rest,
                          takes := takes s @ [(k, i)]\<rparr>)
              | [] \<Rightarrow>
                  if closed s then Some (s\<lparr>workers := (workers s)[k := Exited]\<rparr>)
                  else None)
         | Listing i inputUser \<Rightarrow>
             (case workerItem env inputUser of
                None \<Rightarrow> None
              | Some (tr, Inl a) \<Rightarrow> Some (s\<lparr>exited := Some a\<rparr>)
              | Some (tr, Inr out) \<Rightarrow>
                  Some (s\<lparr>workers := (workers s)[k := Sending i out]\<rparr>))
         | Sending i out \<Rightarrow> None
         | Exited \<Rightarrow> None)
      else None)"

text \<open>
  The send of worker \<open>k\<close> meets a receive of the main goroutine (lines 156-160): a nil
  result is dropped, any other is appended to \<open>userList\<close>.
\<close>

definition handoff :: "inputUser list \<Rightarrow> nat \<Rightarrow> poolState \<Rightarrow> poolState option" where
  "handoff inputUserList k s =
     (case pc s of
        Receiving n \<Rightarrow>
          if n < length inputUserList \<and> k < length (workers s) then
            (case workers s ! k of
               Sending i out \<Rightarrow>
                 Some (s\<lparr>pc := Receiving (Suc n),
                         workers := (workers s)[k := Waiting],
                         userList := (case out of None \<Rightarrow> userList s
                                      | Some user \<Rightarrow> userList s @ [user]),
                         received := received s @ [(i, out)]\<rparr>)
             | _ \<Rightarrow> None)
          else None
      | _ \<Rightarrow> None)"

datatype action = Main | Worker nat | Handoff nat

text \<open>
  One step of the whole process under the scheduler's choice; \<open>None\<close> when the chosen
  goroutine is blocked, or when the process has ended.
\<close>

definition step :: "'t env \<Rightarrow> int \<Rightarrow> inputUser list \<Rightarrow> poolState \<Rightarrow> action \<Rightarrow> poolState option" where
  "step env numOfWorker' inputUserList s a =
     (if exited s \<noteq> None \<or> pc s = Returned then None
      else case a of
        Main \<Rightarrow> mainStep numOfWorker' inputUserList s
      | Worker k \<Rightarrow> workerStep env k s
      | Handoff k \<Rightarrow> handoff inputUserList k s)"

fun runPool :: "'t env \<Rightarrow> int \<Rightarrow> inputUser list \<Rightarrow> poolState \<Rightarrow> action list \<Rightarrow> poolState option" where
  "runPool env numOfWorker' inputUserList s [] = Some s"
| "runPool env numOfWorker' inputUserList s (a # sched) =
     (case step env numOfWorker' inputUserList s a of
        None \<Rightarrow> None
      | Some s' \<Rightarrow> runPool env numOfWorker' inputUserList s' sched)"

section \<open>The whole program\<close>

text \<open>
  \<open>main\<close> under a schedule of the pool: the enumeration, the pool from its initial
  state, then the report. The result is the abort that ended the process, if any, and
  the files; \<open>None\<close> when the enumeration does not return or the schedule does not lead
  to the end of the process.
\<close>

definition mainProgram ::
  "'t env \<Rightarrow> options \<Rightarrow> files \<Rightarrow> action list \<Rightarrow> (abort option \<times> files) option" where
  "mainProgram env opts fs sched =
     (case enumeration env opts of
        None \<Rightarrow> None
      | Some (tr, Inl a) \<Rightarrow> Some (Some a, fs)
      | Some (tr, Inr inputUserList) \<Rightarrow>
          (case runPool env (numOfWorker opts) inputUserList initialPool sched of
             None \<Rightarrow> None
           | Some s \<Rightarrow>
               (case exited s of
                  Some a \<Rightarrow> Some (Some a, fs)
                | None \<Rightarrow>
                    if pc s = Returned then
                      (case writeRecordsToCSV env (outputFile opts) (userList s) fs of
                         (fs', Some err) \<Rightarrow>
                           Some (Some (Fatal \<lparr>message = ''error when writing records to CSV file'',
                                               zapFields = [(''error'', err)]\<rparr>), fs')
                       | (fs', None) \<Rightarrow> Some (None, fs'))
                    else None)))"

section \<open>What the pool preserves\<close>

text \<open>
  The index of the user a worker holds, if it holds one, and the indices held by all
  workers, as a multiset.
\<close>

fun held :: "wstate \<Rightarrow> nat multiset" where
  "held Waiting = {#}"
| "held (Listing i u) = {#i#}"
| "held (Sending i out) = {#i#}"
| "held Exited = {#}"

definition heldTags :: "wstate list \<Rightarrow> nat multiset" where
  "heldTags ws = sum_list (map held ws)"

text \<open>
  The number of users \<open>main\<close> has sent, and the number of results it has received, at each
  of its places; \<open>N\<close> is \<open>numberOfUsers\<close>.
\<close>

fun sent :: "nat \<Rightarrow> mainPc \<Rightarrow> nat" where
  "sent N (Spawning i) = 0"
| "sent N (Submitting i) = i"
| "sent N (Receiving n) = N"
| "sent N Returned = N"

fun receives :: "nat \<Rightarrow> mainPc \<Rightarrow> nat" where
  "receives N (Spawning i) = 0"
| "receives N (Submitting i) = 0"
| "receives N (Receiving n) = n"
| "receives N Returned = N"

text \<open>
  Every user sent is in exactly one place: in the channel, with a worker, or received.
  The users taken are those with a worker and those received.
\<close>

definition accounted :: "nat \<Rightarrow> poolState \<Rightarrow> bool" where
  "accounted N s \<longleftrightarrow>
     sent N (pc s) \<le> N \<and> receives N (pc s) \<le> N
     \<and> length (received s) = receives N (pc s)
     \<and> mset (map fst (inputUserChan s)) + heldTags (workers s) + mset (map fst (received s))
         = mset [0..<sent N (pc s)]
     \<and> mset (map snd (takes s)) = heldTags (workers s) + mset (map fst (received s))"

text \<open>
  The index travels with its user, and a result travels with the index of the user it is
  the result for; \<open>userList\<close> holds the results received that are not nil, in the order
  of their arrival.
\<close>

fun wellTaggedWorker :: "'t env \<Rightarrow> inputUser list \<Rightarrow> wstate \<Rightarrow> bool" where
  "wellTaggedWorker env items Waiting = True"
| "wellTaggedWorker env items (Listing i u) = (i < length items \<and> u = items ! i)"
| "wellTaggedWorker env items (Sending i out) =
     (i < length items \<and> (\<exists>tr. workerItem env (items ! i) = Some (tr, Inr out)))"
| "wellTaggedWorker env items Exited = True"

definition collected :: "(nat \<times> outputUser option) list \<Rightarrow> outputUser list" where
  "collected rs = concat (map (\<lambda>(i, out). case out of None \<Rightarrow> [] | Some user \<Rightarrow> [user]) rs)"

definition wellTagged :: "'t env \<Rightarrow> inputUser list \<Rightarrow> poolState \<Rightarrow> bool" where
  "wellTagged env items s \<longleftrightarrow>
     (\<forall>(i, u) \<in> set (inputUserChan s). i < length items \<and> u = items ! i)
     \<and> (\<forall>w \<in> set (workers s). wellTaggedWorker env items w)
     \<and> (\<forall>(i, out) \<in> set (received s).
           i < length items \<and> (\<exists>tr. workerItem env (items ! i) = Some (tr, Inr out)))
     \<and> userList s = collected (received s)"

text \<open>
  The workers started so far; after the start loop there are \<open>numOfWorker\<close> of them, none
  when that number is not positive. The channel is closed from the receive loop on, and
  a worker has left only if the channel is closed and empty.
\<close>

definition poolShape :: "int \<Rightarrow> poolState \<Rightarrow> bool" where
  "poolShape W s \<longleftrightarrow>
     (case pc s of
        Spawning i \<Rightarrow> 1 \<le> i \<and> length (workers s) = nat (i - 1) \<and> (i \<le> W + 1 \<or> i = 1)
      | _ \<Rightarrow> length (workers s) = nat W)
     \<and> (closed s \<longleftrightarrow> (case pc s of Receiving n \<Rightarrow> True | Returned \<Rightarrow> True | _ \<Rightarrow> False))
     \<and> (Exited \<in> set (workers s) \<longrightarrow> closed s \<and> inputUserChan s = [])"

definition poolInv :: "'t env \<Rightarrow> int \<Rightarrow> inputUser list \<Rightarrow> poolState \<Rightarrow> bool" where
  "poolInv env W items s \<longleftrightarrow>
     accounted (length items) s \<and> wellTagged env items s \<and> poolShape W s"

text \<open>A bound on the steps the process can still take; every step lowers it.\<close>

fun weight :: "wstate \<Rightarrow> nat" where
  "weight Waiting = 1"
| "weight (Listing i u) = 3"
| "weight (Sending i out) = 2"
| "weight Exited = 0"

fun mainLeft :: "int \<Rightarrow> nat \<Rightarrow> mainPc \<Rightarrow> nat" where
  "mainLeft W N (Spawning i) = 2 * nat (W + 1 - i) + 5 * N + 4"
| "mainLeft W N (Submitting i) = 4 * (N - i) + N + 3"
| "mainLeft W N (Receiving n) = (N - n) + 2"
| "mainLeft W N Returned = 0"

definition stepsLeft :: "int \<Rightarrow> nat \<Rightarrow> poolState \<Rightarrow> nat" where
  "stepsLeft W N s =
     mainLeft W N (pc s) + 3 * length (inputUserChan s)
     + sum_list (map weight (workers s)) + (if exited s = None then 1 else 0)"

section \<open>Sequences of pages\<close>

text \<open>
  A traversal is given the pages \<open>pages\<close> when the service answers the first request
  with the first page, and the request carrying the marker of each page with the next;
  every page but the last is truncated (it returns a cursor), the last is not.
\<close>

fun servesUsers :: "'t env \<Rightarrow> iamClient \<Rightarrow> string option \<Rightarrow> user listOutput list \<Rightarrow> bool" where
  "servesUsers env client marker [] = False"
| "servesUsers env client marker [page] =
     (ListUsers env client marker = Inr page \<and> \<not> IsTruncated page)"
| "servesUsers env client marker (page # next # pages) =
     (ListUsers env client marker = Inr page \<and> IsTruncated page
      \<and> servesUsers env client (Marker page) (next # pages))"

fun servesKeys ::
  "'t env \<Rightarrow> inputUser \<Rightarrow> string option \<Rightarrow> 't accessKeyMetadata listOutput list \<Rightarrow> bool" where
  "servesKeys env u marker [] = False"
| "servesKeys env u marker [page] =
     (ListAccessKeys env (iamClient u) (inputUser.name u) marker = Inr page
      \<and> \<not> IsTruncated page)"
| "servesKeys env u marker (page # next # pages) =
     (ListAccessKeys env (iamClient u) (inputUser.name u) marker = Inr page
      \<and> IsTruncated page \<and> servesKeys env u (Marker page) (next # pages))"

text \<open>
  The users appended for one page (lines 122-128), and the markers of the requests a
  traversal makes over the given pages.
\<close>

definition toInputUsers :: "string \<Rightarrow> iamClient \<Rightarrow> user list \<Rightarrow> inputUser list" where
  "toInputUsers accountId' client users =
     map (\<lambda>user. \<lparr>iamClient = client, inputUser.name = UserName user,
                    inputUser.accountId = accountId'\<rparr>) users"

definition requested :: "string option \<Rightarrow> 'a listOutput list \<Rightarrow> string option list" where
  "requested marker pages = marker # map Marker (butlast pages)"

text \<open>
  The pages before the first page without items, and the pages requested up to and
  including that page.
\<close>

definition kept :: "'a listOutput list \<Rightarrow> 'a listOutput list" where
  "kept pages = takeWhile (\<lambda>page. Items page \<noteq> []) pages"

definition visited :: "'a listOutput list \<Rightarrow> 'a listOutput list" where
  "visited pages = take (Suc (length (kept pages))) pages"


text \<open>
  The result a worker sends for a user when the listing of its keys returns without
  error; nil in the other cases.
\<close>

definition outcomeOf :: "'t env \<Rightarrow> inputUser \<Rightarrow> outputUser option" where
  "outcomeOf env u =
     (case workerItem env u of
        Some (tr, Inr out) \<Rightarrow> out
      | _ \<Rightarrow> None)"

text \<open>
  What a listing loop returns: the calls made before it, then its own requests, the last
  of them \<open>m'\<close>; when it returns an abort, that last request failed and the abort is the
  fatal entry of its error.
\<close>

definition usersLoopShape ::
  "'t env \<Rightarrow> iamClient \<Rightarrow> call list \<Rightarrow> (call list \<times> (abort + inputUser list)) \<Rightarrow> bool" where
  "usersLoopShape env c tr y \<longleftrightarrow>
     (\<exists>m' before. fst y = tr @ before @ [ListUsersCall c m']
        \<and> (\<forall>x. snd y = Inl x \<longrightarrow>
              (\<exists>err. ListUsers env c m' = Inl err
                 \<and> x = Fatal \<lparr>message = ''error when listing user'',
                               zapFields = [(''error'', err)]\<rparr>)))"

definition keysLoopShape ::
  "'t env \<Rightarrow> inputUser \<Rightarrow> call list \<Rightarrow> (call list \<times> (abort + 'a)) \<Rightarrow> bool" where
  "keysLoopShape env u tr y \<longleftrightarrow>
     (\<exists>m' before.
        fst y = tr @ before @ [ListAccessKeysCall (iamClient u) (inputUser.name u) m']
        \<and> (\<forall>x. snd y = Inl x \<longrightarrow>
              (\<exists>err. ListAccessKeys env (iamClient u) (inputUser.name u) m' = Inl err
                 \<and> x = Fatal \<lparr>message = ''error when listing access key, '' @ err,
                               zapFields = []\<rparr>)))"

text \<open>
  The aborts of the loop over the accounts: a panic, or the fatal entry of a failed
  operation, which for the two remote operations is the last call made.
\<close>

definition enumerationAbort :: "'t env \<Rightarrow> call list \<Rightarrow> abort \<Rightarrow> bool" where
  "enumerationAbort env tr x \<longleftrightarrow>
     x = Panic ''index out of range''
     \<or> (\<exists>roleARN err before.
           AssumeRole env roleARN = Inl err \<and> tr = before @ [AssumeRoleCall roleARN]
           \<and> x = Fatal \<lparr>message = ''error when doing assume role'',
                         zapFields = [(''role_arn'', roleARN), (''error'', err)]\<rparr>)
     \<or> (\<exists>roleARN creds err.
           AssumeRole env roleARN = Inr creds \<and> LoadAssumedConfig env creds = Some err
           \<and> x = Fatal \<lparr>message = ''error when creating temporary config from the assumed role credentials'',
                         zapFields = [(''role_arn'', roleARN), (''error'', err)]\<rparr>)
     \<or> (\<exists>client marker err before.
           ListUsers env client marker = Inl err \<and> tr = before @ [ListUsersCall client marker]
           \<and> x = Fatal \<lparr>message = ''error when listing user'',
                         zapFields = [(''error'', err)]\<rparr>)"

section \<open>What the services hold\<close>

text \<open>
  The accounts of an account list are served when, for each record in turn, the role
  assumption answers with credentials, the scoped configuration loads, and the user
  listing of the client gives the pages of users stated for the account.
\<close>

fun servesAccounts ::
  "'t env \<Rightarrow> string list list \<Rightarrow> (credentials \<times> user listOutput list) list \<Rightarrow> bool" where
  "servesAccounts env [] [] = True"
| "servesAccounts env (r # rs) ((creds, pages) # accts) =
     (case getRoleARN r of
        None \<Rightarrow> False
      | Some roleARN \<Rightarrow>
          AssumeRole env roleARN = Inr creds \<and> LoadAssumedConfig env creds = None
          \<and> servesUsers env creds None pages \<and> servesAccounts env rs accts)"
| "servesAccounts env [] (acct # accts) = False"
| "servesAccounts env (r # rs) [] = False"

text \<open>The users these accounts hold, account by account and page by page, and the calls
  that list them.\<close>

fun heldUsers :: "string list list \<Rightarrow> (credentials \<times> user listOutput list) list \<Rightarrow> inputUser list" where
  "heldUsers (r # rs) ((creds, pages) # accts) =
     concat (map (\<lambda>page. toInputUsers (hd r) creds (Items page)) pages) @ heldUsers rs accts"
| "heldUsers rs accts = []"

fun listingCalls :: "string list list \<Rightarrow> (credentials \<times> user listOutput list) list \<Rightarrow> call list" where
  "listingCalls (r # rs) ((creds, pages) # accts) =
     AssumeRoleCall (''arn:aws:iam::'' @ hd r @ '':role/'' @ hd (tl r))
     # map (ListUsersCall creds) (requested None pages) @ listingCalls rs accts"
| "listingCalls rs accts = []"

text \<open>
  A listing fails after the pages \<open>pages\<close> when the service gives these pages in turn,
  each with a cursor (and, for keys, each with a key), and answers the next request with
  the error.
\<close>

fun usersFailAfter ::
  "'t env \<Rightarrow> iamClient \<Rightarrow> string option \<Rightarrow> user listOutput list \<Rightarrow> string \<Rightarrow> bool" where
  "usersFailAfter env client marker [] err = (ListUsers env client marker = Inl err)"
| "usersFailAfter env client marker (page # pages) err =
     (ListUsers env client marker = Inr page \<and> IsTruncated page
      \<and> usersFailAfter env client (Marker page) pages err)"

fun keysFailAfter ::
  "'t env \<Rightarrow> inputUser \<Rightarrow> string option \<Rightarrow> 't accessKeyMetadata listOutput list \<Rightarrow> string
   \<Rightarrow> bool" where
  "keysFailAfter env u marker [] err =
     (ListAccessKeys env (iamClient u) (inputUser.name u) marker = Inl err)"
| "keysFailAfter env u marker (page # pages) err =
     (ListAccessKeys env (iamClient u) (inputUser.name u) marker = Inr page
      \<and> Items page \<noteq> [] \<and> IsTruncated page
      \<and> keysFailAfter env u (Marker page) pages err)"

text \<open>
  The row of a user with the given keys, and the row the report has for a user whose
  keys the service holds as the pages \<open>keyPages u\<close>: the keys of the pages before the
  first page without items, and no row when there is none.
\<close>

definition keyRow :: "'t env \<Rightarrow> inputUser \<Rightarrow> 't accessKeyMetadata list \<Rightarrow> string list" where
  "keyRow env u keys =
     [inputUser.accountId u, inputUser.name u]
     @ concat (map (\<lambda>ak. [accessKeyMetadata.AccessKeyId ak,
                            Format env (CreateDate ak) ''2006-01-02T15:04:05-07:00'']) keys)"

definition reportRow ::
  "'t env \<Rightarrow> (inputUser \<Rightarrow> 't accessKeyMetadata listOutput list) \<Rightarrow> inputUser
   \<Rightarrow> string list option" where
  "reportRow env keyPages u =
     (if concat (map Items (kept (keyPages u))) = [] then None
      else Some (keyRow env u (concat (map Items (kept (keyPages u))))))"

section \<open>Example environments\<close>

text \<open>
  One account \<open>111111111111\<close> with the users \<open>alice\<close>, who has one key, and \<open>bob\<close>, who has
  none; and variations of it.
\<close>

definition demoCreds :: credentials where
  "demoCreds = \<lparr>credentials.AccessKeyId = ''ASIA1'', SecretAccessKey = ''s'', SessionToken = ''t''\<rparr>"

definition demoEnv :: "nat env" where
  "demoEnv =
     \<lparr>LoadDefaultConfig = (\<lambda>profile. None),
      OpenFile = (\<lambda>filename. Inr [Record (Some [''111111111111'', ''ReadOnly''])]),
      AssumeRole = (\<lambda>roleARN. Inr demoCreds),
      LoadAssumedConfig = (\<lambda>creds. None),
      ListUsers = (\<lambda>client marker.
        Inr \<lparr>Items = [\<lparr>UserName = ''alice''\<rparr>, \<lparr>UserName = ''bob''\<rparr>],
             IsTruncated = False, Marker = None\<rparr>),
      ListAccessKeys = (\<lambda>client userName marker.
        if userName = ''alice'' then
          Inr \<lparr>Items = [\<lparr>accessKeyMetadata.AccessKeyId = ''AKIA1'', CreateDate = 0\<rparr>],
               IsTruncated = False, Marker = None\<rparr>
        else Inr \<lparr>Items = [], IsTruncated = False, Marker = None\<rparr>),
      Format = (\<lambda>t layout. ''2024-01-01T00:00:00+00:00''),
      CreateFile = (\<lambda>filename. None),
      WriteRecord = (\<lambda>record. None),
      FlushError = None,
      Reached = (\<lambda>written. [])\<rparr>"

definition demoOpts :: options where
  "demoOpts =
     \<lparr>awsProfileName = ''default'', showDebug = False,
      accountListFile = ''accountlist.csv'', outputFile = ''output.csv'',
      numOfWorker = 2\<rparr>"

text \<open>An account list whose only record has an identifier of ten characters.\<close>

definition badEnv :: "nat env" where
  "badEnv = demoEnv\<lparr>OpenFile := \<lambda>filename. Inr (csvReader [(1, [''1111111111'', ''R1''])])\<rparr>"

text \<open>
  An account list whose second row has three fields and an identifier of ten characters.
\<close>

definition wideEnv :: "nat env" where
  "wideEnv = demoEnv
     \<lparr>OpenFile := \<lambda>filename. Inr (csvReader [(1, [''111111111111'', ''ReadOnly'']),
                                                (2, [''2222222222'', ''R2'', ''extra''])])\<rparr>"

text \<open>
  Listings in several pages: two pages of users; carol's keys in three pages, the second
  without items; dave's keys in two pages; erin's first page of keys without items but
  with a cursor.
\<close>

definition carolPage :: "user listOutput" where
  "carolPage = \<lparr>Items = [\<lparr>UserName = ''carol''\<rparr>], IsTruncated = True, Marker = Some ''m1''\<rparr>"

definition davePage :: "user listOutput" where
  "davePage = \<lparr>Items = [\<lparr>UserName = ''dave''\<rparr>], IsTruncated = False, Marker = None\<rparr>"

definition demoKey :: "string \<Rightarrow> nat accessKeyMetadata" where
  "demoKey k = \<lparr>accessKeyMetadata.AccessKeyId = k, CreateDate = 0\<rparr>"

definition carolKeys :: "nat accessKeyMetadata listOutput list" where
  "carolKeys =
     [\<lparr>Items = [demoKey ''AKIA1''], IsTruncated = True, Marker = Some ''n1''\<rparr>,
      \<lparr>Items = [], IsTruncated = True, Marker = Some ''n2''\<rparr>,
      \<lparr>Items = [demoKey ''AKIA2''], IsTruncated = False, Marker = None\<rparr>]"

definition daveKeys :: "nat accessKeyMetadata listOutput list" where
  "daveKeys =
     [\<lparr>Items = [demoKey ''AKIA3''], IsTruncated = True, Marker = Some ''n1''\<rparr>,
      \<lparr>Items = [demoKey ''AKIA4''], IsTruncated = False, Marker = None\<rparr>]"

definition erinKeys :: "nat accessKeyMetadata listOutput list" where
  "erinKeys =
     [\<lparr>Items = [], IsTruncated = True, Marker = Some ''n1''\<rparr>,
      \<lparr>Items = [demoKey ''AKIA5''], IsTruncated = False, Marker = None\<rparr>]"

definition pagedEnv :: "nat env" where
  "pagedEnv = demoEnv
     \<lparr>ListUsers := (\<lambda>client marker. if marker = None then Inr carolPage else Inr davePage),
      ListAccessKeys := (\<lambda>client userName marker.
        Inr ((if userName = ''carol'' then carolKeys
              else if userName = ''erin'' then erinKeys else daveKeys)
             ! (if marker = None then 0 else if marker = Some ''n1'' then 1 else 2)))\<rparr>"

definition carol :: inputUser where
  "carol = \<lparr>iamClient = demoCreds, inputUser.name = ''carol'', inputUser.accountId = ''111111111111''\<rparr>"

definition erin :: inputUser where
  "erin = \<lparr>iamClient = demoCreds, inputUser.name = ''erin'', inputUser.accountId = ''111111111111''\<rparr>"

definition dave :: inputUser where
  "dave = \<lparr>iamClient = demoCreds, inputUser.name = ''dave'', inputUser.accountId = ''111111111111''\<rparr>"

text \<open>
  Schedules and the states they lead to. With one worker and one user: start the worker,
  end the start loop, send, close, take, list, hand over, leave the receive loop.
\<close>

definition oneUserSchedule :: "action list" where
  "oneUserSchedule = [Main, Main, Main, Main, Worker 0, Worker 0, Handoff 0, Main]"

definition erinFinal :: poolState where
  "erinFinal =
     \<lparr>pc = Returned, workers = [Waiting], inputUserChan = [], closed = True, userList = [],
      exited = None, received = [(0, None)], takes = [(0, 0)]\<rparr>"

definition demoDate :: string where
  "demoDate = ''2024-01-01T00:00:00+00:00''"

definition daveOut :: outputUser where
  "daveOut =
     \<lparr>outputUser.name = ''dave'', outputUser.accountId = ''111111111111'',
      accessKeys = [\<lparr>keyId = ''AKIA3'', createdDate = demoDate\<rparr>,
                    \<lparr>keyId = ''AKIA4'', createdDate = demoDate\<rparr>]\<rparr>"

definition daveFinal :: poolState where
  "daveFinal =
     \<lparr>pc = Returned, workers = [Waiting], inputUserChan = [], closed = True,
      userList = [daveOut], exited = None, received = [(0, Some daveOut)],
      takes = [(0, 0)]\<rparr>"

text \<open>
  The two users of the example account, with two workers: in \<open>midSchedule\<close> the first
  worker takes alice before bob is sent, and bob's result arrives first; in
  \<open>leaveSchedule\<close> the first worker takes both users and the second leaves.
\<close>

definition alice :: inputUser where
  "alice = \<lparr>iamClient = demoCreds, inputUser.name = ''alice'', inputUser.accountId = ''111111111111''\<rparr>"

definition bob :: inputUser where
  "bob = \<lparr>iamClient = demoCreds, inputUser.name = ''bob'', inputUser.accountId = ''111111111111''\<rparr>"

definition aliceOut :: outputUser where
  "aliceOut =
     \<lparr>outputUser.name = ''alice'', outputUser.accountId = ''111111111111'',
      accessKeys = [\<lparr>keyId = ''AKIA1'', createdDate = demoDate\<rparr>]\<rparr>"

definition midSchedule :: "action list" where
  "midSchedule = [Main, Main, Main, Main, Worker 0, Main, Main, Worker 1]"

definition lastSchedule :: "action list" where
  "lastSchedule = midSchedule @ [Worker 1, Worker 0, Handoff 1, Handoff 0]"

definition demoSchedule :: "action list" where
  "demoSchedule = lastSchedule @ [Main]"

definition demoMid :: poolState where
  "demoMid =
     \<lparr>pc = Receiving 0, workers = [Listing 0 alice, Listing 1 bob], inputUserChan = [],
      closed = True, userList = [], exited = None, received = [],
      takes = [(0, 0), (1, 1)]\<rparr>"

definition demoLast :: poolState where
  "demoLast =
     \<lparr>pc = Receiving 2, workers = [Waiting, Waiting], inputUserChan = [],
      closed = True, userList = [aliceOut], exited = None,
      received = [(1, None), (0, Some aliceOut)], takes = [(0, 0), (1, 1)]\<rparr>"

definition demoFinal :: poolState where
  "demoFinal = demoLast\<lparr>pc := Returned\<rparr>"



text \<open>An empty account list, and an account without users.\<close>

definition emptyEnv :: "nat env" where
  "emptyEnv = demoEnv\<lparr>OpenFile := \<lambda>filename. Inr []\<rparr>"

definition noUsersEnv :: "nat env" where
  "noUsersEnv = demoEnv
     \<lparr>ListUsers := \<lambda>client marker. Inr \<lparr>Items = [], IsTruncated = False, Marker = None\<rparr>\<rparr>"

definition idleSchedule :: "action list" where
  "idleSchedule = [Main, Main, Main, Main, Main]"

definition idleFinal :: poolState where
  "idleFinal =
     \<lparr>pc = Returned, workers = [Waiting, Waiting], inputUserChan = [], closed = True,
      userList = [], exited = None, received = [], takes = []\<rparr>"

definition demoARN :: string where
  "demoARN = ''arn:aws:iam::111111111111:role/ReadOnly''"

text \<open>An account identifier of twelve letters.\<close>

definition lettersEnv :: "nat env" where
  "lettersEnv = demoEnv\<lparr>OpenFile := \<lambda>filename. Inr [Record (Some [''abcdefghijkl'', ''ReadOnly''])]\<rparr>"

text \<open>
  Failing services: the user listing fails, for the account of either of two account
  lists; the key listing is throttled.
\<close>

definition deniedEnv :: "nat env" where
  "deniedEnv = demoEnv
     \<lparr>OpenFile := (\<lambda>filename.
        Inr [Record (Some [if filename = ''accountlist.csv'' then ''111111111111''
                           else ''222222222222'', ''ReadOnly''])]),
      ListUsers := (\<lambda>client marker. Inl ''request send failed'')\<rparr>"

definition throttledEnv :: "nat env" where
  "throttledEnv = demoEnv\<lparr>ListAccessKeys := \<lambda>client userName marker. Inl ''Throttling''\<rparr>"

definition deniedFatal :: abort where
  "deniedFatal =
     Fatal \<lparr>message = ''error when listing user'',
            zapFields = [(''error'', ''request send failed'')]\<rparr>"

definition throttledFatal :: abort where
  "throttledFatal =
     Fatal \<lparr>message = ''error when listing access key, Throttling'', zapFields = []\<rparr>"

text \<open>Two pages of users without a user, the first with a cursor.\<close>

definition sparsePages :: "user listOutput list" where
  "sparsePages =
     [\<lparr>Items = [], IsTruncated = True, Marker = Some ''m1''\<rparr>,
      \<lparr>Items = [], IsTruncated = False, Marker = None\<rparr>]"

definition sparseEnv :: "nat env" where
  "sparseEnv = demoEnv
     \<lparr>ListUsers := \<lambda>client marker. Inr (sparsePages ! (if marker = None then 0 else 1))\<rparr>"

text \<open>
  The key pages the service holds for each user; an account of erin and carol; the
  record and the row of the report for carol and dave, and the pool after both runs.
\<close>

definition pagedKeys :: "inputUser \<Rightarrow> nat accessKeyMetadata listOutput list" where
  "pagedKeys u =
     (if inputUser.name u = ''carol'' then carolKeys
      else if inputUser.name u = ''erin'' then erinKeys else daveKeys)"

definition gapEnv :: "nat env" where
  "gapEnv = pagedEnv
     \<lparr>ListUsers := \<lambda>client marker.
        Inr \<lparr>Items = [\<lparr>UserName = ''erin''\<rparr>, \<lparr>UserName = ''carol''\<rparr>],
             IsTruncated = False, Marker = None\<rparr>\<rparr>"

definition carolOut :: outputUser where
  "carolOut =
     \<lparr>outputUser.name = ''carol'', outputUser.accountId = ''111111111111'',
      accessKeys = [\<lparr>keyId = ''AKIA1'', createdDate = demoDate\<rparr>]\<rparr>"

definition carolRow :: "string list" where
  "carolRow = [''111111111111'', ''carol'', ''AKIA1'', demoDate]"

definition daveRow :: "string list" where
  "daveRow = [''111111111111'', ''dave'', ''AKIA3'', demoDate, ''AKIA4'', demoDate]"

definition pagedFinal :: poolState where
  "pagedFinal =
     \<lparr>pc = Returned, workers = [Waiting, Waiting], inputUserChan = [], closed = True,
      userList = [daveOut, carolOut], exited = None,
      received = [(1, Some daveOut), (0, Some carolOut)], takes = [(0, 0), (1, 1)]\<rparr>"

definition gapFinal :: poolState where
  "gapFinal =
     \<lparr>pc = Returned, workers = [Waiting, Waiting], inputUserChan = [], closed = True,
      userList = [carolOut], exited = None,
      received = [(1, Some carolOut), (0, None)], takes = [(0, 0), (1, 1)]\<rparr>"

text \<open>
  Failures after a success: the role of the second account is refused after the first
  account was listed; the user listing fails on its second request; the key listing
  fails on its second request, and a run of the pool up to the worker's listing.
\<close>

definition demoPage :: "user listOutput" where
  "demoPage = \<lparr>Items = [\<lparr>UserName = ''alice''\<rparr>, \<lparr>UserName = ''bob''\<rparr>],
               IsTruncated = False, Marker = None\<rparr>"

definition otherARN :: string where
  "otherARN = ''arn:aws:iam::222222222222:role/ReadOnly''"

definition secondEnv :: "nat env" where
  "secondEnv = demoEnv
     \<lparr>OpenFile := (\<lambda>filename. Inr [Record (Some [''111111111111'', ''ReadOnly'']),
                                   Record (Some [''222222222222'', ''ReadOnly''])]),
      AssumeRole := (\<lambda>roleARN. if roleARN = demoARN then Inr demoCreds
                                 else Inl ''AccessDenied'')\<rparr>"

definition secondFatal :: abort where
  "secondFatal =
     Fatal \<lparr>message = ''error when doing assume role'',
            zapFields = [(''role_arn'', otherARN), (''error'', ''AccessDenied'')]\<rparr>"

definition brokenUsersEnv :: "nat env" where
  "brokenUsersEnv = demoEnv
     \<lparr>ListUsers := (\<lambda>client marker. if marker = None then Inr carolPage
                                     else Inl ''request send failed'')\<rparr>"

definition firstKeyPage :: "nat accessKeyMetadata listOutput" where
  "firstKeyPage = \<lparr>Items = [demoKey ''AKIA1''], IsTruncated = True, Marker = Some ''n1''\<rparr>"

definition brokenKeysEnv :: "nat env" where
  "brokenKeysEnv = demoEnv
     \<lparr>ListAccessKeys := (\<lambda>client userName marker.
        if marker = None then Inr firstKeyPage else Inl ''Throttling'')\<rparr>"

definition takenSchedule :: "action list" where
  "takenSchedule = [Main, Main, Main, Main, Worker 0]"

definition takenState :: poolState where
  "takenState =
     \<lparr>pc = Submitting 1, workers = [Listing 0 alice, Waiting], inputUserChan = [],
      closed = False, userList = [], exited = None, received = [], takes = [(0, 0)]\<rparr>"

section \<open>Input validation\<close>

lemma validate_iff:
  "validateCSVAccountRoleData record = None
   \<longleftrightarrow> (\<exists>a b. record = Some [a, b] \<and> length a = 12)"
  by (auto simp: validateCSVAccountRoleData_def length_Suc_conv split: option.splits list.splits)

lemma validate_names:
  "validateCSVAccountRoleData (Some (a # rest)) = Some err \<Longrightarrow>
   err = ''validation failed for account '' @ a @ '', the number of data for this account is not 2 columns''
   \<or> err = ''validation failed for account '' @ a @ '', the account id must be 12 characters''"
  by (auto simp: validateCSVAccountRoleData_def split: if_splits)

lemma readRecords_first_bad:
  "\<forall>g \<in> set good. validateCSVAccountRoleData (Some g) = None \<Longrightarrow>
   validateCSVAccountRoleData r = Some err \<Longrightarrow>
   readRecords (map (\<lambda>g. Record (Some g)) good @ Record r # later) acc = Inl err"
  by (induction good arbitrary: acc) auto

lemma csvRead_same:
  "\<forall>(l, g) \<in> set good. length g = n \<Longrightarrow>
   csvRead n (good @ rows) = map (\<lambda>g. Record (Some g)) (map snd good) @ csvRead n rows"
  by (induction good) auto

lemma valid_length: "validateCSVAccountRoleData (Some g) = None \<Longrightarrow> length g = 2"
  by (auto simp: validate_iff)

lemma readRecords_parse_error:
  "\<forall>g \<in> set good. validateCSVAccountRoleData (Some g) = None \<Longrightarrow>
   readRecords (map (\<lambda>g. Record (Some g)) good @ ParseError l c e # later) acc =
     Inl (''error when parsing csv in line '' @ showNat l @ '' column '' @ showNat c @ '', '' @ e)"
  by (induction good arbitrary: acc) auto

lemma csvReader_bad:
  assumes good: "\<forall>(l, g) \<in> set good. validateCSVAccountRoleData (Some g) = None"
  shows "\<exists>later'. csvReader (good @ (line, bad) # later) =
           map (\<lambda>g. Record (Some g)) (map snd good)
           @ (if good = [] \<or> length bad = 2 then Record (Some bad)
              else ParseError line 1
                     (''record on line '' @ showNat line @ '': wrong number of fields''))
           # later'"
proof (cases good)
  case Nil
  then show ?thesis by (simp add: csvReader_def)
next
  case (Cons first good')
  obtain l0 g0 where first: "first = (l0, g0)" by (cases first)
  from good Cons first have two: "length g0 = 2" and
    rest: "\<forall>(l, g) \<in> set good'. length g = 2"
    by (auto dest: valid_length)
  from csvRead_same [OF rest, of "(line, bad) # later"] Cons first two
  show ?thesis by (simp add: csvReader_def)
qed

text \<open>
  C5, as amended: a record passes validation exactly when it has two fields and its
  first field has length 12. When a row of the account list does not, after rows that
  do, the run ends with the fatal entry "error when reading account list file", no
  remote call has been made, under every schedule, and the files are untouched. If the
  row is the first of the file or has two fields, the error is one of the two
  validation messages and names the first field of the row. If it is a later row with
  another number of fields, the reader has refused it before validation and the error
  is the parse error of its line, which does not name the field.
\<close>

theorem malformed_record_fails_run:
  assumes cfg: "LoadDefaultConfig env (awsProfileName opts) = None"
    and csvf: "OpenFile env (accountListFile opts) =
                 Inr (csvReader (good @ (line, a # rest) # later))"
    and good: "\<forall>(l, g) \<in> set good. validateCSVAccountRoleData (Some g) = None"
    and bad: "\<not> (length (a # rest) = 2 \<and> length a = 12)"
  shows "(validateCSVAccountRoleData record = None
          \<longleftrightarrow> (\<exists>a b. record = Some [a, b] \<and> length a = 12))
       \<and> (\<exists>err.
             enumeration env opts =
               Some ([], Inl (Fatal \<lparr>message = ''error when reading account list file'',
                                      zapFields = [(''error'', err)]\<rparr>))
             \<and> (\<forall>fs sched. mainProgram env opts fs sched =
                   Some (Some (Fatal \<lparr>message = ''error when reading account list file'',
                                       zapFields = [(''error'', err)]\<rparr>), fs))
             \<and> (good = [] \<or> length (a # rest) = 2 \<longrightarrow>
                  err = ''validation failed for account '' @ a
                        @ '', the number of data for this account is not 2 columns''
                  \<or> err = ''validation failed for account '' @ a
                        @ '', the account id must be 12 characters'')
             \<and> (good \<noteq> [] \<and> length (a # rest) \<noteq> 2 \<longrightarrow>
                  err = ''error when parsing csv in line '' @ showNat line @ '' column ''
                        @ showNat 1 @ '', record on line '' @ showNat line
                        @ '': wrong number of fields''))"
proof -
  have v: "validateCSVAccountRoleData (Some (a # rest)) \<noteq> None"
    using bad by (auto simp: validate_iff)
  then obtain verr where verr: "validateCSVAccountRoleData (Some (a # rest)) = Some verr"
    by blast
  from good have good': "\<forall>g \<in> set (map snd good). validateCSVAccountRoleData (Some g) = None"
    by auto
  from csvReader_bad [OF good, of line "a # rest" later] obtain later' where
    rd: "csvReader (good @ (line, a # rest) # later) =
           map (\<lambda>g. Record (Some g)) (map snd good)
           @ (if good = [] \<or> length (a # rest) = 2 then Record (Some (a # rest))
              else ParseError line 1
                     (''record on line '' @ showNat line @ '': wrong number of fields''))
           # later'"
    by blast
  define err where "err =
    (if good = [] \<or> length (a # rest) = 2 then verr
     else ''error when parsing csv in line '' @ showNat line @ '' column ''
          @ showNat 1 @ '', record on line '' @ showNat line @ '': wrong number of fields'')"
  have "readRecords (csvReader (good @ (line, a # rest) # later)) [] = Inl err"
  proof (cases "good = [] \<or> length (a # rest) = 2")
    case True
    then have "err = verr" by (simp only: err_def if_True)
    with True rd readRecords_first_bad [OF good' verr, of later' "[]"] show ?thesis
      by (simp only: if_True)
  next
    case False
    then have "err = ''error when parsing csv in line '' @ showNat line @ '' column ''
          @ showNat 1 @ '', record on line '' @ showNat line @ '': wrong number of fields''"
      by (simp only: err_def if_False)
    with False rd readRecords_parse_error [OF good', of line 1
        "''record on line '' @ showNat line @ '': wrong number of fields''" later' "[]"]
    show ?thesis
      by simp
  qed
  with csvf have "getAccountRoleListFromCSV env (accountListFile opts) = Inl err"
    by (simp add: getAccountRoleListFromCSV_def)
  with cfg have en: "enumeration env opts =
      Some ([], Inl (Fatal \<lparr>message = ''error when reading account list file'',
                             zapFields = [(''error'', err)]\<rparr>))"
    by (simp add: enumeration_def)
  then have mp: "\<forall>fs sched. mainProgram env opts fs sched =
      Some (Some (Fatal \<lparr>message = ''error when reading account list file'',
                          zapFields = [(''error'', err)]\<rparr>), fs)"
    by (simp add: mainProgram_def)
  have e1: "good = [] \<or> length (a # rest) = 2 \<longrightarrow>
              err = ''validation failed for account '' @ a
                    @ '', the number of data for this account is not 2 columns''
              \<or> err = ''validation failed for account '' @ a
                    @ '', the account id must be 12 characters''"
  proof
    assume "good = [] \<or> length (a # rest) = 2"
    then have "err = verr" by (simp only: err_def if_True)
    with validate_names [OF verr] show
      "err = ''validation failed for account '' @ a
                    @ '', the number of data for this account is not 2 columns''
              \<or> err = ''validation failed for account '' @ a
                    @ '', the account id must be 12 characters''"
      by (simp only:)
  qed
  have e2: "good \<noteq> [] \<and> length (a # rest) \<noteq> 2 \<longrightarrow>
              err = ''error when parsing csv in line '' @ showNat line @ '' column ''
                    @ showNat 1 @ '', record on line '' @ showNat line
                    @ '': wrong number of fields''"
  proof
    assume "good \<noteq> [] \<and> length (a # rest) \<noteq> 2"
    then have "\<not> (good = [] \<or> length (a # rest) = 2)" by blast
    then show "err = ''error when parsing csv in line '' @ showNat line @ '' column ''
                    @ showNat 1 @ '', record on line '' @ showNat line
                    @ '': wrong number of fields''"
      by (simp only: err_def if_False)
  qed
  show ?thesis
    apply (rule conjI)
     apply (rule validate_iff)
    apply (rule exI [of _ err])
    using en mp e1 e2 apply (intro conjI)
       apply assumption+
    done
qed

lemma showNat_digits: "showNat 1 = ''1''" "showNat (Suc 0) = ''1''" "showNat 2 = ''2''"
  by code_simp+

text \<open>
  C5 as stated fails: the second row has three fields and an identifier of ten
  characters; the reader refuses it for its number of fields, and the run ends with the
  parse error of line 2, which does not name the identifier.
\<close>

theorem malformed_record_parse_error_counterexample:
  "OpenFile wideEnv (accountListFile demoOpts) =
     Inr (csvReader [(1, [''111111111111'', ''ReadOnly'']),
                     (2, [''2222222222'', ''R2'', ''extra''])])
   \<and> validateCSVAccountRoleData (Some [''2222222222'', ''R2'', ''extra'']) =
       Some ''validation failed for account 2222222222, the number of data for this account is not 2 columns''
   \<and> enumeration wideEnv demoOpts =
       Some ([], Inl (Fatal \<lparr>message = ''error when reading account list file'',
          zapFields = [(''error'', ''error when parsing csv in line 2 column 1, record on line 2: wrong number of fields'')]\<rparr>))
   \<and> mainProgram wideEnv demoOpts Map.empty [] =
       Some (Some (Fatal \<lparr>message = ''error when reading account list file'',
          zapFields = [(''error'', ''error when parsing csv in line 2 column 1, record on line 2: wrong number of fields'')]\<rparr>),
             Map.empty)"
  by (simp add: mainProgram_def enumeration_def getAccountRoleListFromCSV_def csvReader_def
      validateCSVAccountRoleData_def wideEnv_def demoEnv_def demoOpts_def showNat_digits)

theorem malformed_record_fails_run_witness:
  "LoadDefaultConfig badEnv (awsProfileName demoOpts) = None
   \<and> OpenFile badEnv (accountListFile demoOpts) = Inr (csvReader [(1, [''1111111111'', ''R1''])])
   \<and> \<not> (length [''1111111111'', ''R1''] = 2 \<and> length ''1111111111'' = 12)
   \<and> (\<forall>fs sched. mainProgram badEnv demoOpts fs sched =
         Some (Some (Fatal \<lparr>message = ''error when reading account list file'',
                 zapFields = [(''error'', ''validation failed for account 1111111111, the account id must be 12 characters'')]\<rparr>), fs))
   \<and> LoadDefaultConfig wideEnv (awsProfileName demoOpts) = None
   \<and> OpenFile wideEnv (accountListFile demoOpts) =
       Inr (csvReader [(1, [''111111111111'', ''ReadOnly'']),
                       (2, [''2222222222'', ''R2'', ''extra''])])
   \<and> validateCSVAccountRoleData (Some [''111111111111'', ''ReadOnly'']) = None
   \<and> \<not> (length [''2222222222'', ''R2'', ''extra''] = 2 \<and> length ''2222222222'' = 12)
   \<and> (\<forall>fs sched. mainProgram wideEnv demoOpts fs sched =
         Some (Some (Fatal \<lparr>message = ''error when reading account list file'',
                 zapFields = [(''error'', ''error when parsing csv in line 2 column 1, record on line 2: wrong number of fields'')]\<rparr>), fs))"
proof -
  have h1: "LoadDefaultConfig badEnv (awsProfileName demoOpts) = None"
    by (simp add: badEnv_def demoEnv_def)
  have h2: "OpenFile badEnv (accountListFile demoOpts) =
              Inr (csvReader ([] @ (1, ''1111111111'' # [''R1'']) # []))"
    by (simp add: badEnv_def demoEnv_def)
  have h3: "\<forall>(l, g) \<in> set []. validateCSVAccountRoleData (Some g) = None"
    by simp
  have h4: "\<not> (length (''1111111111'' # [''R1'']) = 2 \<and> length ''1111111111'' = 12)"
    by simp
  from malformed_record_fails_run [OF h1 h2 h3 h4, THEN conjunct2]
  obtain err where
    m: "\<forall>fs sched. mainProgram badEnv demoOpts fs sched =
              Some (Some (Fatal \<lparr>message = ''error when reading account list file'',
                                  zapFields = [(''error'', err)]\<rparr>), fs)"
    by blast
  have "mainProgram badEnv demoOpts Map.empty [] =
          Some (Some (Fatal \<lparr>message = ''error when reading account list file'',
                  zapFields = [(''error'', ''validation failed for account 1111111111, the account id must be 12 characters'')]\<rparr>), Map.empty)"
    by (simp add: mainProgram_def enumeration_def getAccountRoleListFromCSV_def csvReader_def
        validateCSVAccountRoleData_def badEnv_def demoEnv_def demoOpts_def)
  with m have e: "err = ''validation failed for account 1111111111, the account id must be 12 characters''"
    by simp
  have g1: "LoadDefaultConfig wideEnv (awsProfileName demoOpts) = None"
    by (simp add: wideEnv_def demoEnv_def)
  have g2: "OpenFile wideEnv (accountListFile demoOpts) =
              Inr (csvReader ([(1, [''111111111111'', ''ReadOnly''])]
                              @ (2, ''2222222222'' # [''R2'', ''extra'']) # []))"
    by (simp add: wideEnv_def demoEnv_def)
  have v: "validateCSVAccountRoleData (Some [''111111111111'', ''ReadOnly'']) = None"
    by (simp add: validateCSVAccountRoleData_def)
  then have g3: "\<forall>(l, g) \<in> set [(1 :: nat, [''111111111111'', ''ReadOnly''])].
                   validateCSVAccountRoleData (Some g) = None"
    by simp
  have g4: "\<not> (length (''2222222222'' # [''R2'', ''extra'']) = 2 \<and> length ''2222222222'' = 12)"
    by simp
  from malformed_record_fails_run [OF g1 g2 g3 g4, THEN conjunct2]
  obtain err' where
    m': "\<forall>fs sched. mainProgram wideEnv demoOpts fs sched =
              Some (Some (Fatal \<lparr>message = ''error when reading account list file'',
                                  zapFields = [(''error'', err')]\<rparr>), fs)"
    and p: "[(1 :: nat, [''111111111111'', ''ReadOnly''])] \<noteq> []
            \<and> length (''2222222222'' # [''R2'', ''extra'']) \<noteq> 2 \<longrightarrow>
            err' = ''error when parsing csv in line '' @ showNat 2 @ '' column ''
                   @ showNat 1 @ '', record on line '' @ showNat 2
                   @ '': wrong number of fields''"
    by blast
  from p have e': "err' = ''error when parsing csv in line 2 column 1, record on line 2: wrong number of fields''"
    by (simp add: showNat_digits)
  from m e m' e' h1 g1 v show ?thesis
    by (simp add: badEnv_def wideEnv_def demoEnv_def)
qed

section \<open>Invariants of the pool\<close>

lemma heldTags_append [simp]: "heldTags (ws @ [w]) = heldTags ws + held w"
  by (simp add: heldTags_def)

lemma heldTags_update:
  "k < length ws \<Longrightarrow> heldTags (ws[k := w]) + held (ws ! k) = heldTags ws + held w"
  unfolding heldTags_def
proof (induction ws arbitrary: k)
  case Nil
  then show ?case by simp
next
  case (Cons x xs)
  show ?case
  proof (cases k)
    case 0
    then show ?thesis by simp
  next
    case (Suc j)
    with Cons.prems have "j < length xs" by simp
    from Cons.IH [OF this] Suc show ?thesis by (simp add: ac_simps)
  qed
qed

lemma heldTags_update_same:
  "k < length ws \<Longrightarrow> held w = held (ws ! k) \<Longrightarrow> heldTags (ws[k := w]) = heldTags ws"
  using heldTags_update [of k ws w] by simp

lemma heldTags_update_empty:
  "k < length ws \<Longrightarrow> held (ws ! k) = {#} \<Longrightarrow> heldTags (ws[k := w]) = heldTags ws + held w"
  using heldTags_update [of k ws w] by simp

lemma heldTags_update_release:
  "k < length ws \<Longrightarrow> held w = {#} \<Longrightarrow> heldTags (ws[k := w]) + held (ws ! k) = heldTags ws"
  using heldTags_update [of k ws w] by simp

lemma mset_set_upt_Suc: "mset_set {0..<Suc n} = add_mset n (mset_set {0..<n})"
  by (simp add: atLeastLessThanSuc)

lemma accounted_initial: "accounted N initialPool"
  by (simp add: accounted_def initialPool_def heldTags_def)

lemma accounted_mainStep:
  "accounted (length items) s \<Longrightarrow> mainStep W items s = Some s' \<Longrightarrow> accounted (length items) s'"
  by (auto simp: accounted_def mainStep_def mset_set_upt_Suc split: mainPc.splits if_splits)

lemma accounted_workerStep:
  "accounted N s \<Longrightarrow> workerStep env k s = Some s' \<Longrightarrow> accounted N s'"
  by (auto simp: accounted_def workerStep_def heldTags_update_same heldTags_update_empty
      split: wstate.splits if_splits list.splits option.splits sum.splits prod.splits)

lemma accounted_handoff:
  "accounted (length items) s \<Longrightarrow> handoff items k s = Some s' \<Longrightarrow> accounted (length items) s'"
proof -
  assume a: "accounted (length items) s" and h: "handoff items k s = Some s'"
  from h obtain n i out where
    pc: "pc s = Receiving n" and n: "n < length items" and k: "k < length (workers s)"
    and w: "workers s ! k = Sending i out"
    and s': "s' = s\<lparr>pc := Receiving (Suc n), workers := (workers s)[k := Waiting],
                      userList := (case out of None \<Rightarrow> userList s | Some user \<Rightarrow> userList s @ [user]),
                      received := received s @ [(i, out)]\<rparr>"
    by (auto simp: handoff_def split: wstate.splits if_splits mainPc.splits)
  from heldTags_update_release [OF k, of Waiting] w
  have r: "heldTags ((workers s)[k := Waiting]) + {#i#} = heldTags (workers s)" by simp
  show ?thesis
    using a pc n unfolding accounted_def s' by (simp add: r [symmetric])
qed

lemma collected_snoc [simp]:
  "collected (rs @ [(i, out)]) = collected rs @ (case out of None \<Rightarrow> [] | Some user \<Rightarrow> [user])"
  by (simp add: collected_def)

lemma set_update_cases: "x \<in> set (ws[k := w]) \<Longrightarrow> x = w \<or> x \<in> set ws"
  using set_update_subset_insert [of ws k w] by auto

lemma mainStep_cases [consumes 1, case_names spawn spawned submit close return]:
  assumes "mainStep W items s = Some s'"
  obtains
    i where "pc s = Spawning i" "i \<le> W"
      "s' = s\<lparr>pc := Spawning (i + 1), workers := workers s @ [Waiting]\<rparr>"
  | i where "pc s = Spawning i" "\<not> i \<le> W" "s' = s\<lparr>pc := Submitting 0\<rparr>"
  | i where "pc s = Submitting i" "i < length items"
      "s' = s\<lparr>pc := Submitting (Suc i),
               inputUserChan := inputUserChan s @ [(i, items ! i)]\<rparr>"
  | i where "pc s = Submitting i" "\<not> i < length items"
      "s' = s\<lparr>pc := Receiving 0, closed := True\<rparr>"
  | n where "pc s = Receiving n" "\<not> n < length items" "s' = s\<lparr>pc := Returned\<rparr>"
  using assms by (auto simp: mainStep_def split: mainPc.splits if_splits)

lemma workerStep_cases [consumes 1, case_names take leave listed failed]:
  assumes "workerStep env k s = Some s'"
  obtains
    i u rest where "k < length (workers s)" "workers s ! k = Waiting"
      "inputUserChan s = (i, u) # rest"
      "s' = s\<lparr>workers := (workers s)[k := Listing i u], inputUserChan := rest,
               takes := takes s @ [(k, i)]\<rparr>"
  | "k < length (workers s)" "workers s ! k = Waiting" "inputUserChan s = []" "closed s"
      "s' = s\<lparr>workers := (workers s)[k := Exited]\<rparr>"
  | i u tr out where "k < length (workers s)" "workers s ! k = Listing i u"
      "workerItem env u = Some (tr, Inr out)"
      "s' = s\<lparr>workers := (workers s)[k := Sending i out]\<rparr>"
  | i u tr a where "k < length (workers s)" "workers s ! k = Listing i u"
      "workerItem env u = Some (tr, Inl a)" "s' = s\<lparr>exited := Some a\<rparr>"
  using assms
  by (auto simp: workerStep_def
      split: wstate.splits if_splits list.splits option.splits sum.splits prod.splits)

lemma handoff_cases [consumes 1, case_names receive]:
  assumes "handoff items k s = Some s'"
  obtains n i out where "pc s = Receiving n" "n < length items" "k < length (workers s)"
      "workers s ! k = Sending i out"
      "s' = s\<lparr>pc := Receiving (Suc n), workers := (workers s)[k := Waiting],
               userList := (case out of None \<Rightarrow> userList s | Some user \<Rightarrow> userList s @ [user]),
               received := received s @ [(i, out)]\<rparr>"
  using assms by (auto simp: handoff_def split: wstate.splits if_splits mainPc.splits)

lemma wellTagged_initial: "wellTagged env items initialPool"
  by (simp add: wellTagged_def initialPool_def collected_def)

lemma wellTagged_mainStep:
  assumes "wellTagged env items s" and "mainStep W items s = Some s'"
  shows "wellTagged env items s'"
  using assms(2,1) by (cases rule: mainStep_cases) (auto simp: wellTagged_def)

lemma wellTagged_workerStep:
  assumes inv: "wellTagged env items s" and st: "workerStep env k s = Some s'"
  shows "wellTagged env items s'"
  using st
proof (cases rule: workerStep_cases)
  case (take i u rest)
  with inv show ?thesis
    by (auto simp: wellTagged_def dest!: set_update_cases)
next
  case leave
  with inv show ?thesis
    by (auto simp: wellTagged_def dest!: set_update_cases)
next
  case (listed i u tr out)
  from inv listed(1,2) have "wellTaggedWorker env items (Listing i u)"
    unfolding wellTagged_def by (metis nth_mem)
  with inv listed show ?thesis
    by (auto simp: wellTagged_def dest!: set_update_cases)
next
  case (failed i u tr a)
  with inv show ?thesis by (simp add: wellTagged_def)
qed

lemma wellTagged_handoff:
  assumes inv: "wellTagged env items s" and st: "handoff items k s = Some s'"
  shows "wellTagged env items s'"
  using st
proof (cases rule: handoff_cases)
  case (receive n i out)
  from inv receive(3,4) have "wellTaggedWorker env items (Sending i out)"
    unfolding wellTagged_def by (metis nth_mem)
  with inv receive show ?thesis
    by (auto simp: wellTagged_def split: option.splits dest!: set_update_cases)
qed

lemma poolShape_initial: "poolShape W initialPool"
  by (simp add: poolShape_def initialPool_def)

lemma poolShape_mainStep:
  assumes "poolShape W s" and "mainStep W items s = Some s'"
  shows "poolShape W s'"
  using assms(2,1)
  by (cases rule: mainStep_cases) (auto simp: poolShape_def nat_diff_distrib)

lemma poolShape_workerStep:
  assumes "poolShape W s" and "workerStep env k s = Some s'"
  shows "poolShape W s'"
  using assms(2,1)
  by (cases rule: workerStep_cases)
     (auto simp: poolShape_def split: mainPc.splits dest!: set_update_cases)

lemma poolShape_handoff:
  assumes "poolShape W s" and "handoff items k s = Some s'"
  shows "poolShape W s'"
  using assms(2,1)
  by (cases rule: handoff_cases)
     (auto simp: poolShape_def split: mainPc.splits dest!: set_update_cases)

lemma poolInv_step:
  assumes "poolInv env W items s" and "step env W items s a = Some s'"
  shows "poolInv env W items s'"
proof (cases a)
  case Main
  with assms show ?thesis
    by (auto simp: poolInv_def step_def split: if_splits
        intro: accounted_mainStep wellTagged_mainStep poolShape_mainStep)
next
  case (Worker k)
  with assms show ?thesis
    by (auto simp: poolInv_def step_def split: if_splits
        intro: accounted_workerStep wellTagged_workerStep poolShape_workerStep)
next
  case (Handoff k)
  with assms show ?thesis
    by (auto simp: poolInv_def step_def split: if_splits
        intro: accounted_handoff wellTagged_handoff poolShape_handoff)
qed

lemma poolInv_runPool:
  "poolInv env W items s \<Longrightarrow> runPool env W items s sched = Some s'
   \<Longrightarrow> poolInv env W items s'"
  by (induction sched arbitrary: s) (auto split: option.splits dest: poolInv_step)

lemma poolInv_initial: "poolInv env W items initialPool"
  by (simp add: poolInv_def accounted_initial wellTagged_initial poolShape_initial)

lemma poolInv_reachable:
  "runPool env W items initialPool sched = Some s \<Longrightarrow> poolInv env W items s"
  using poolInv_runPool [OF poolInv_initial] .

lemma weight_update:
  "k < length ws \<Longrightarrow>
   sum_list (map weight (ws[k := w])) + weight (ws ! k) = sum_list (map weight ws) + weight w"
proof (induction ws arbitrary: k)
  case Nil
  then show ?case by simp
next
  case (Cons x xs)
  show ?case
  proof (cases k)
    case 0
    then show ?thesis by simp
  next
    case (Suc j)
    with Cons.prems have "j < length xs" by simp
    from Cons.IH [OF this] Suc show ?thesis by simp
  qed
qed

lemma stepsLeft_mainStep:
  assumes "mainStep W items s = Some s'"
  shows "stepsLeft W (length items) s' < stepsLeft W (length items) s"
  using assms by (cases rule: mainStep_cases) (auto simp: stepsLeft_def)

lemma stepsLeft_workerStep:
  assumes "workerStep env k s = Some s'" and "exited s = None"
  shows "stepsLeft W N s' < stepsLeft W N s"
  using assms(1)
proof (cases rule: workerStep_cases)
  case (take i u rest)
  with weight_update [of k "workers s" "Listing i u"] show ?thesis
    by (simp add: stepsLeft_def)
next
  case leave
  with weight_update [of k "workers s" Exited] show ?thesis
    by (simp add: stepsLeft_def)
next
  case (listed i u tr out)
  with weight_update [of k "workers s" "Sending i out"] show ?thesis
    by (simp add: stepsLeft_def)
next
  case (failed i u tr a)
  with assms(2) show ?thesis by (simp add: stepsLeft_def)
qed

lemma stepsLeft_handoff:
  assumes "handoff items k s = Some s'"
  shows "stepsLeft W (length items) s' < stepsLeft W (length items) s"
  using assms
proof (cases rule: handoff_cases)
  case (receive n i out)
  with weight_update [of k "workers s" Waiting] show ?thesis
    by (simp add: stepsLeft_def)
qed

lemma stepsLeft_step:
  "step env W items s a = Some s' \<Longrightarrow> stepsLeft W (length items) s' < stepsLeft W (length items) s"
  by (cases a)
     (auto simp: step_def split: if_splits
       intro: stepsLeft_mainStep stepsLeft_workerStep stepsLeft_handoff)

lemma stepsLeft_runPool:
  "runPool env W items s sched = Some s'
   \<Longrightarrow> length sched + stepsLeft W (length items) s' \<le> stepsLeft W (length items) s"
proof (induction sched arbitrary: s)
  case Nil
  then show ?case by simp
next
  case (Cons a sched)
  then obtain s1 where a: "step env W items s a = Some s1"
    and r: "runPool env W items s1 sched = Some s'"
    by (auto split: option.splits)
  from Cons.IH [OF r] stepsLeft_step [OF a] show ?case by simp
qed

lemma heldTags_empty_iff: "heldTags ws = {#} \<longleftrightarrow> (\<forall>w \<in> set ws. held w = {#})"
  by (induction ws) (auto simp: heldTags_def)

lemma pool_progress:
  assumes inv: "poolInv env W items s" and w: "1 \<le> W"
    and listed: "\<forall>u \<in> set items. workerItem env u \<noteq> None"
    and live: "exited s = None" "pc s \<noteq> Returned"
  shows "\<exists>a s'. step env W items s a = Some s'"
proof -
  from inv have acc: "accounted (length items) s" and tag: "wellTagged env items s"
    and shape: "poolShape W s"
    by (simp_all add: poolInv_def)
  have main: "mainStep W items s \<noteq> None \<Longrightarrow> ?thesis"
    using live by (auto simp: step_def intro!: exI [of _ Main])
  show ?thesis
  proof (cases "pc s")
    case (Spawning i)
    then show ?thesis by (intro main) (simp add: mainStep_def)
  next
    case (Submitting i)
    then show ?thesis by (intro main) (simp add: mainStep_def)
  next
    case Returned
    with live show ?thesis by simp
  next
    case (Receiving n)
    show ?thesis
    proof (cases "n < length items")
      case False
      with Receiving show ?thesis by (intro main) (simp add: mainStep_def)
    next
      case True
      from acc Receiving have
        "size (mset (map fst (inputUserChan s)) + heldTags (workers s)
               + mset (map fst (received s))) = size (mset [0..<length items])"
        and "length (received s) = n"
        by (simp_all add: accounted_def)
      with True have some: "inputUserChan s \<noteq> [] \<or> heldTags (workers s) \<noteq> {#}"
        by auto
      show ?thesis
      proof (cases "heldTags (workers s) = {#}")
        case False
        then obtain wk where wk: "wk \<in> set (workers s)" "held wk \<noteq> {#}"
          by (auto simp: heldTags_empty_iff)
        then obtain k where k: "k < length (workers s)" "workers s ! k = wk"
          by (auto simp: in_set_conv_nth)
        from wk(2) show ?thesis
        proof (cases wk)
          case (Listing i u)
          from tag wk(1) Listing have "u \<in> set items"
            by (auto simp: wellTagged_def)
          with listed obtain tr r where "workerItem env u = Some (tr, r)"
            by fastforce
          with k Listing have "workerStep env k s \<noteq> None"
            by (cases r) (simp_all add: workerStep_def)
          with live show ?thesis
            by (auto simp: step_def intro!: exI [of _ "Worker k"])
        next
          case (Sending i out)
          with k Receiving True have "handoff items k s \<noteq> None"
            by (simp add: handoff_def)
          with live show ?thesis
            by (auto simp: step_def intro!: exI [of _ "Handoff k"])
        qed simp_all
      next
        case True
        with some have chan: "inputUserChan s \<noteq> []" by simp
        from shape Receiving w have len: "0 < length (workers s)"
          by (simp add: poolShape_def)
        from shape chan have "Exited \<notin> set (workers s)"
          by (auto simp: poolShape_def)
        with len have ne: "workers s ! 0 \<noteq> Exited"
          by (metis nth_mem)
        from True len have "held (workers s ! 0) = {#}"
          by (simp add: heldTags_empty_iff)
        with ne have "workers s ! 0 = Waiting"
          by (cases "workers s ! 0") simp_all
        with len chan have "workerStep env 0 s \<noteq> None"
          by (cases "inputUserChan s") (auto simp: workerStep_def)
        with live show ?thesis
          by (auto simp: step_def intro!: exI [of _ "Worker 0"])
      qed
    qed
  qed
qed

section \<open>The listing loops over a sequence of pages\<close>

lemma listUsersLoop_pages:
  "servesUsers env client marker pages \<Longrightarrow>
   listUsersLoop env acct client marker tr acc =
     Some (tr @ map (ListUsersCall client) (requested marker pages),
           Inr (acc @ concat (map (\<lambda>page. toInputUsers acct client (Items page)) pages)))"
proof (induction env client marker pages arbitrary: tr acc rule: servesUsers.induct)
  case (1 env client marker)
  then show ?case by simp
next
  case (2 env client marker page)
  then show ?case
    by (subst listUsersLoop.simps) (simp add: requested_def toInputUsers_def)
next
  case (3 env client marker page nxt pages)
  from "3.prems" have p: "ListUsers env client marker = Inr page" "IsTruncated page"
    and rest: "servesUsers env client (Marker page) (nxt # pages)"
    by simp_all
  show ?case
    by (subst listUsersLoop.simps)
       (simp add: p "3.IH" [OF rest] requested_def toInputUsers_def)
qed

lemma length_toInputUsers [simp]: "length (toInputUsers acct client users) = length users"
  by (simp add: toInputUsers_def)

lemma length_concat_pages:
  "\<forall>page \<in> set pages. length (f (Items page)) = k \<Longrightarrow>
   length (concat (map (\<lambda>page. f (Items page)) pages)) = length pages * k"
  by (induction pages) simp_all

lemma length_requested [simp]: "pages \<noteq> [] \<Longrightarrow> length (requested marker pages) = length pages"
  by (simp add: requested_def)

lemma servesUsers_nonempty: "servesUsers env client marker pages \<Longrightarrow> pages \<noteq> []"
  by (cases pages) simp_all

text \<open>
  C4: over \<open>N\<close> pages of which every one but the last returns a cursor, the user-listing
  loop returns after exactly \<open>N\<close> requests, each carrying the marker of the page before,
  with the users of all pages in page order; with \<open>k\<close> users in every page these are
  \<open>N * k\<close> users. Nothing is assumed of the number of users in a page: a page with no
  user and a cursor is followed, and the first page without a cursor ends the loop. For
  a single page without users and without a cursor: one request, no user.
\<close>

theorem user_pagination:
  assumes "servesUsers env client None pages"
  shows "\<exists>tr users.
           listUsersLoop env acct client None [] [] = Some (tr, Inr users)
           \<and> tr = map (ListUsersCall client) (requested None pages)
           \<and> length tr = length pages
           \<and> users = concat (map (\<lambda>page. toInputUsers acct client (Items page)) pages)
           \<and> ((\<forall>page \<in> set pages. length (Items page) = k) \<longrightarrow>
                length users = length pages * k)"
  using listUsersLoop_pages [OF assms, of acct "[]" "[]"] servesUsers_nonempty [OF assms]
    length_concat_pages [of pages "toInputUsers acct client" k]
  by simp

lemma listAccessKeysLoop_pages:
  "servesKeys env u marker pages \<Longrightarrow>
   listAccessKeysLoop env u marker tr acc =
     Some (tr @ map (ListAccessKeysCall (iamClient u) (inputUser.name u))
                    (requested marker (visited pages)),
           Inr (acc @ concat (map Items (kept pages))))"
proof (induction env u marker pages arbitrary: tr acc rule: servesKeys.induct)
  case (1 env u marker)
  then show ?case by simp
next
  case (2 env u marker page)
  then show ?case
    by (subst listAccessKeysLoop.simps) (simp add: requested_def kept_def visited_def)
next
  case (3 env u marker page nxt pages)
  from "3.prems" have
    p: "ListAccessKeys env (iamClient u) (inputUser.name u) marker = Inr page" "IsTruncated page"
    and rest: "servesKeys env u (Marker page) (nxt # pages)"
    by simp_all
  show ?case
  proof (cases "Items page = []")
    case True
    then show ?thesis
      by (subst listAccessKeysLoop.simps) (simp add: p requested_def kept_def visited_def)
  next
    case False
    then show ?thesis
      by (subst listAccessKeysLoop.simps)
         (simp add: p "3.IH" [OF rest] requested_def kept_def visited_def)
  qed
qed

lemma first_page_empty:
  assumes "ListAccessKeys env (iamClient u) (inputUser.name u) None = Inr page"
    and "Items page = []"
  shows "workerItem env u =
           Some ([ListAccessKeysCall (iamClient u) (inputUser.name u) None], Inr None)"
  unfolding workerItem_def
  by (subst listAccessKeysLoop.simps) (simp add: assms toOutputUser_def)

theorem user_pagination_witness:
  "servesUsers pagedEnv demoCreds None [carolPage, davePage]
   \<and> length (Items carolPage) = 1 \<and> length (Items davePage) = 1
   \<and> listUsersLoop pagedEnv ''111111111111'' demoCreds None [] [] =
       Some ([ListUsersCall demoCreds None, ListUsersCall demoCreds (Some ''m1'')],
             Inr [carol, dave])
   \<and> length [carol, dave] = length [carolPage, davePage] * 1
   \<and> servesUsers sparseEnv demoCreds None sparsePages
   \<and> Items (sparsePages ! 0) = [] \<and> IsTruncated (sparsePages ! 0)
   \<and> listUsersLoop sparseEnv ''111111111111'' demoCreds None [] [] =
       Some ([ListUsersCall demoCreds None, ListUsersCall demoCreds (Some ''m1'')], Inr [])"
proof -
  have h': "servesUsers sparseEnv demoCreds None sparsePages"
    by (simp add: sparseEnv_def demoEnv_def sparsePages_def)
  from user_pagination [OF h', of "''111111111111''" 0]
  have s: "listUsersLoop sparseEnv ''111111111111'' demoCreds None [] [] =
       Some ([ListUsersCall demoCreds None, ListUsersCall demoCreds (Some ''m1'')], Inr [])"
    by (simp add: requested_def toInputUsers_def sparsePages_def)
  have e: "Items (sparsePages ! 0) = []" "IsTruncated (sparsePages ! 0)"
    by (simp_all add: sparsePages_def)
  have h: "servesUsers pagedEnv demoCreds None [carolPage, davePage]"
    by (simp add: pagedEnv_def demoEnv_def carolPage_def davePage_def)
  have k: "\<forall>page \<in> set [carolPage, davePage]. length (Items page) = 1"
    by (simp add: carolPage_def davePage_def)
  from user_pagination [OF h, of "''111111111111''" 1] k h
  have "listUsersLoop pagedEnv ''111111111111'' demoCreds None [] [] =
       Some ([ListUsersCall demoCreds None, ListUsersCall demoCreds (Some ''m1'')],
             Inr [carol, dave])"
    by (simp add: requested_def toInputUsers_def carolPage_def davePage_def carol_def dave_def)
  with h h' s e show ?thesis
    by (simp add: carolPage_def davePage_def)
qed

section \<open>The results received\<close>

lemma set_collected: "set (collected rs) = {ou. \<exists>i. (i, Some ou) \<in> set rs}"
  by (induction rs) (auto simp: collected_def split: option.splits)

lemma received_outcome:
  assumes "runPool env W items initialPool sched = Some s" and "(i, out) \<in> set (received s)"
  shows "i < length items \<and> (\<exists>tr. workerItem env (items ! i) = Some (tr, Inr out))"
  using poolInv_reachable [OF assms(1)] assms(2)
  by (auto simp: poolInv_def wellTagged_def)

lemma userList_collected:
  "runPool env W items initialPool sched = Some s \<Longrightarrow> userList s = collected (received s)"
  using poolInv_reachable [of env W items sched s]
  by (simp add: poolInv_def wellTagged_def)

lemma returned_drained:
  assumes "accounted N s" and "receives N (pc s) = N" "sent N (pc s) = N"
  shows "inputUserChan s = [] \<and> heldTags (workers s) = {#}
         \<and> mset (map fst (received s)) = mset [0..<N]
         \<and> mset (map snd (takes s)) = mset [0..<N]"
proof -
  from assms have len: "length (received s) = N"
    and eq: "mset (map fst (inputUserChan s)) + heldTags (workers s)
             + mset (map fst (received s)) = mset [0..<N]"
    and tk: "mset (map snd (takes s)) = heldTags (workers s) + mset (map fst (received s))"
    by (simp_all add: accounted_def)
  from eq have "size (mset (map fst (inputUserChan s)) + heldTags (workers s)
                      + mset (map fst (received s))) = size (mset [0..<N])"
    by simp
  with len have "inputUserChan s = []" and h: "heldTags (workers s) = {#}"
    by simp_all
  with eq tk show ?thesis by simp
qed

lemma returned_all:
  assumes run: "runPool env W items initialPool sched = Some s" and "pc s = Returned"
    and "i < length items"
  shows "\<exists>tr out. workerItem env (items ! i) = Some (tr, Inr out) \<and> (i, out) \<in> set (received s)"
proof -
  from poolInv_reachable [OF run] have "accounted (length items) s"
    by (simp add: poolInv_def)
  from returned_drained [OF this] assms(2)
  have "mset (map fst (received s)) = mset [0..<length items]" by simp
  then have "set (map fst (received s)) = set [0..<length items]"
    by (rule mset_eq_setD)
  with assms(3) obtain out where "(i, out) \<in> set (received s)"
    by force
  with received_outcome [OF run this] show ?thesis by blast
qed

text \<open>
  C3: when the first key-listing page of a user has no items, the worker makes that one
  request and no other, whether or not the reply is truncated, and sends nil. In every
  state the pool reaches, with any number of workers and under any schedule, each result
  received for that user is nil and no entry of \<open>userList\<close> comes from that user.
\<close>

theorem empty_first_page:
  assumes "ListAccessKeys env (iamClient u) (inputUser.name u) None = Inr page"
    and "Items page = []"
  shows "workerItem env u =
           Some ([ListAccessKeysCall (iamClient u) (inputUser.name u) None], Inr None)
       \<and> (\<forall>W items sched s. runPool env W items initialPool sched = Some s \<longrightarrow>
            (\<forall>(i, out) \<in> set (received s). items ! i = u \<longrightarrow> out = None)
            \<and> (\<forall>ou \<in> set (userList s). \<exists>i < length items. items ! i \<noteq> u
                  \<and> (\<exists>tr. workerItem env (items ! i) = Some (tr, Inr (Some ou)))))"
proof (intro conjI allI impI)
  show w: "workerItem env u =
           Some ([ListAccessKeysCall (iamClient u) (inputUser.name u) None], Inr None)"
    by (rule first_page_empty [OF assms])
  fix W items sched s
  assume run: "runPool env W items initialPool sched = Some s"
  show "\<forall>(i, out) \<in> set (received s). items ! i = u \<longrightarrow> out = None"
    using received_outcome [OF run] w by fastforce
  show "\<forall>ou \<in> set (userList s). \<exists>i < length items. items ! i \<noteq> u
          \<and> (\<exists>tr. workerItem env (items ! i) = Some (tr, Inr (Some ou)))"
  proof
    fix ou assume "ou \<in> set (userList s)"
    then obtain i where i: "(i, Some ou) \<in> set (received s)"
      by (auto simp: userList_collected [OF run] set_collected)
    from received_outcome [OF run i] w show "\<exists>i < length items. items ! i \<noteq> u
          \<and> (\<exists>tr. workerItem env (items ! i) = Some (tr, Inr (Some ou)))"
      by fastforce
  qed
qed

theorem empty_first_page_witness:
  "ListAccessKeys pagedEnv (iamClient erin) (inputUser.name erin) None = Inr (erinKeys ! 0)
   \<and> Items (erinKeys ! 0) = [] \<and> IsTruncated (erinKeys ! 0)
   \<and> workerItem pagedEnv erin = Some ([ListAccessKeysCall demoCreds ''erin'' None], Inr None)
   \<and> runPool pagedEnv 1 [erin] initialPool oneUserSchedule = Some erinFinal
   \<and> received erinFinal = [(0, None)] \<and> userList erinFinal = []"
proof -
  have h1: "ListAccessKeys pagedEnv (iamClient erin) (inputUser.name erin) None = Inr (erinKeys ! 0)"
    by (simp add: pagedEnv_def demoEnv_def erin_def)
  have h2: "Items (erinKeys ! 0) = []" and h3: "IsTruncated (erinKeys ! 0)"
    by (simp_all add: erinKeys_def)
  note t = empty_first_page [OF h1 h2]
  from t have w: "workerItem pagedEnv erin =
      Some ([ListAccessKeysCall demoCreds ''erin'' None], Inr None)"
    by (simp add: erin_def)
  have run: "runPool pagedEnv 1 [erin] initialPool oneUserSchedule = Some erinFinal"
    by (simp add: oneUserSchedule_def erinFinal_def step_def mainStep_def workerStep_def
        handoff_def initialPool_def w)
  from t [THEN conjunct2, rule_format, OF run] h1 h2 h3 w run show ?thesis
    by (simp add: erinFinal_def)
qed

lemma servesKeys_nonempty: "servesKeys env u marker pages \<Longrightarrow> pages \<noteq> []"
  by (cases pages) simp_all

lemma kept_all:
  "\<forall>page \<in> set (butlast pages). Items page \<noteq> [] \<Longrightarrow>
   concat (map Items (kept pages)) = concat (map Items pages) \<and> visited pages = pages"
proof (induction pages)
  case Nil
  then show ?case by (simp add: kept_def visited_def)
next
  case (Cons page pages)
  show ?case
  proof (cases "pages = []")
    case True
    then show ?thesis by (simp add: kept_def visited_def)
  next
    case False
    with Cons show ?thesis by (simp add: kept_def visited_def)
  qed
qed

text \<open>
  C2, as amended: for a user whose key listing is given as pages, the first of them with
  a key, the worker sends the user with the keys of the pages before the first page
  without items, in page order, and requests no page after that one; the row of the
  user is the account, the name and then the identifier and the formatted date of each
  of those keys. When no page before the last is without items these are the keys of
  all the pages, one request per page. Once \<open>main\<close> is past the receive loop the user is
  in \<open>userList\<close>.
\<close>

theorem key_pagination:
  assumes pages: "servesKeys env u None pages" and first: "Items (hd pages) \<noteq> []"
  shows "\<exists>tr ou.
           workerItem env u = Some (tr, Inr (Some ou))
           \<and> tr = map (ListAccessKeysCall (iamClient u) (inputUser.name u))
                      (requested None (visited pages))
           \<and> ou = \<lparr>outputUser.name = inputUser.name u,
                   outputUser.accountId = inputUser.accountId u,
                   accessKeys =
                     map (\<lambda>ak. \<lparr>keyId = accessKeyMetadata.AccessKeyId ak,
                                  createdDate = Format env (CreateDate ak) ''2006-01-02T15:04:05-07:00''\<rparr>)
                         (concat (map Items (kept pages)))\<rparr>
           \<and> userRecord ou =
               [inputUser.accountId u, inputUser.name u]
               @ concat (map (\<lambda>ak. [accessKeyMetadata.AccessKeyId ak,
                                      Format env (CreateDate ak) ''2006-01-02T15:04:05-07:00''])
                             (concat (map Items (kept pages))))
           \<and> ((\<forall>page \<in> set (butlast pages). Items page \<noteq> []) \<longrightarrow>
                concat (map Items (kept pages)) = concat (map Items pages)
                \<and> length tr = length pages)
           \<and> (\<forall>W items sched s i.
                runPool env W items initialPool sched = Some s \<longrightarrow> pc s = Returned \<longrightarrow>
                i < length items \<longrightarrow> items ! i = u \<longrightarrow> ou \<in> set (userList s))"
proof -
  let ?keys = "concat (map Items (kept pages))"
  let ?ou = "\<lparr>outputUser.name = inputUser.name u,
              outputUser.accountId = inputUser.accountId u,
              accessKeys =
                map (\<lambda>ak. \<lparr>keyId = accessKeyMetadata.AccessKeyId ak,
                             createdDate = Format env (CreateDate ak) ''2006-01-02T15:04:05-07:00''\<rparr>)
                    ?keys\<rparr>"
  let ?tr = "map (ListAccessKeysCall (iamClient u) (inputUser.name u))
                 (requested None (visited pages))"
  from pages have ne: "pages \<noteq> []" by (rule servesKeys_nonempty)
  with first have "?keys \<noteq> []"
    by (cases pages) (simp_all add: kept_def)
  with listAccessKeysLoop_pages [OF pages, of "[]" "[]"]
  have w: "workerItem env u = Some (?tr, Inr (Some ?ou))"
    by (simp add: workerItem_def toOutputUser_def)
  have row: "userRecord ?ou =
               [inputUser.accountId u, inputUser.name u]
               @ concat (map (\<lambda>ak. [accessKeyMetadata.AccessKeyId ak,
                                      Format env (CreateDate ak) ''2006-01-02T15:04:05-07:00''])
                             ?keys)"
    by (simp add: userRecord_def comp_def)
  have all: "(\<forall>page \<in> set (butlast pages). Items page \<noteq> []) \<longrightarrow>
                ?keys = concat (map Items pages) \<and> length ?tr = length pages"
    using kept_all [of pages] ne by (auto simp: requested_def)
  have pool: "\<forall>W items sched s i.
                runPool env W items initialPool sched = Some s \<longrightarrow> pc s = Returned \<longrightarrow>
                i < length items \<longrightarrow> items ! i = u \<longrightarrow> ?ou \<in> set (userList s)"
  proof (intro allI impI)
    fix W items sched s i
    assume run: "runPool env W items initialPool sched = Some s" and "pc s = Returned"
      and "i < length items" and "items ! i = u"
    with returned_all [OF run] w have "(i, Some ?ou) \<in> set (received s)"
      by fastforce
    then show "?ou \<in> set (userList s)"
      unfolding userList_collected [OF run] set_collected by blast
  qed
  from w row all pool show ?thesis by blast
qed

text \<open>
  C2 as stated fails: carol's second page has no items and a cursor; the worker stops
  there with the key of the first page, and the key of the third page is lost.
\<close>

theorem key_pagination_gap_counterexample:
  "servesKeys pagedEnv carol None carolKeys
   \<and> workerItem pagedEnv carol =
       Some ([ListAccessKeysCall demoCreds ''carol'' None,
              ListAccessKeysCall demoCreds ''carol'' (Some ''n1'')],
             Inr (Some \<lparr>outputUser.name = ''carol'', outputUser.accountId = ''111111111111'',
                         accessKeys = [\<lparr>keyId = ''AKIA1'', createdDate = demoDate\<rparr>]\<rparr>))
   \<and> concat (map Items carolKeys) = [demoKey ''AKIA1'', demoKey ''AKIA2'']"
proof -
  have h: "servesKeys pagedEnv carol None carolKeys"
    by (simp add: pagedEnv_def demoEnv_def carol_def carolKeys_def)
  from listAccessKeysLoop_pages [OF h, of "[]" "[]"] h show ?thesis
    by (simp add: workerItem_def toOutputUser_def kept_def visited_def requested_def
        carolKeys_def carol_def demoKey_def demoDate_def pagedEnv_def demoEnv_def)
qed

theorem key_pagination_witness:
  "servesKeys pagedEnv dave None daveKeys \<and> Items (hd daveKeys) \<noteq> []
   \<and> butlast daveKeys = [daveKeys ! 0] \<and> Items (daveKeys ! 0) \<noteq> []
   \<and> workerItem pagedEnv dave =
       Some ([ListAccessKeysCall demoCreds ''dave'' None,
              ListAccessKeysCall demoCreds ''dave'' (Some ''n1'')], Inr (Some daveOut))
   \<and> userRecord daveOut =
       [''111111111111'', ''dave'', ''AKIA3'', demoDate, ''AKIA4'', demoDate]
   \<and> runPool pagedEnv 1 [dave] initialPool oneUserSchedule = Some daveFinal
   \<and> daveOut \<in> set (userList daveFinal)"
proof -
  have h: "servesKeys pagedEnv dave None daveKeys"
    by (simp add: pagedEnv_def demoEnv_def dave_def daveKeys_def)
  have f: "Items (hd daveKeys) \<noteq> []"
    and a: "\<forall>page \<in> set (butlast daveKeys). Items page \<noteq> []"
    by (simp_all add: daveKeys_def)
  from key_pagination [OF h f] obtain tr ou where
    w: "workerItem pagedEnv dave = Some (tr, Inr (Some ou))"
    and tr: "tr = map (ListAccessKeysCall (iamClient dave) (inputUser.name dave))
                      (requested None (visited daveKeys))"
    and ou: "ou = \<lparr>outputUser.name = inputUser.name dave,
                   outputUser.accountId = inputUser.accountId dave,
                   accessKeys =
                     map (\<lambda>ak. \<lparr>keyId = accessKeyMetadata.AccessKeyId ak,
                                  createdDate = Format pagedEnv (CreateDate ak) ''2006-01-02T15:04:05-07:00''\<rparr>)
                         (concat (map Items (kept daveKeys)))\<rparr>"
    and pool: "\<forall>W items sched s i.
                runPool pagedEnv W items initialPool sched = Some s \<longrightarrow> pc s = Returned \<longrightarrow>
                i < length items \<longrightarrow> items ! i = dave \<longrightarrow> ou \<in> set (userList s)"
    by blast
  have ou': "ou = daveOut"
    unfolding ou
    by (simp add: daveOut_def dave_def daveKeys_def kept_def demoKey_def demoDate_def
        pagedEnv_def demoEnv_def)
  have tr': "tr = [ListAccessKeysCall demoCreds ''dave'' None,
                   ListAccessKeysCall demoCreds ''dave'' (Some ''n1'')]"
    unfolding tr
    by (simp add: dave_def daveKeys_def kept_def visited_def requested_def)
  have run: "runPool pagedEnv 1 [dave] initialPool oneUserSchedule = Some daveFinal"
    by (simp add: oneUserSchedule_def daveFinal_def step_def mainStep_def workerStep_def
        handoff_def initialPool_def w ou')
  have "daveOut \<in> set (userList daveFinal)"
    using pool [rule_format, OF run, of 0] ou' by (simp add: daveFinal_def)
  moreover have "userRecord daveOut =
       [''111111111111'', ''dave'', ''AKIA3'', demoDate, ''AKIA4'', demoDate]"
    by (simp add: userRecord_def daveOut_def)
  moreover have "butlast daveKeys = [daveKeys ! 0]" "Items (daveKeys ! 0) \<noteq> []"
    by (simp_all add: daveKeys_def)
  ultimately show ?thesis
    using h f w ou' tr' run by simp
qed

section \<open>Runs of the pool end\<close>

lemma pool_progress_gen:
  assumes inv: "poolInv env W items s" and w: "items \<noteq> [] \<longrightarrow> 1 \<le> W"
    and listed: "\<forall>u \<in> set items. workerItem env u \<noteq> None"
    and live: "exited s = None" "pc s \<noteq> Returned"
  shows "\<exists>a s'. step env W items s a = Some s'"
proof (cases "items = []")
  case False
  with w have "1 \<le> W" by simp
  from pool_progress [OF inv this listed live] show ?thesis .
next
  case True
  from inv have acc: "accounted (length items) s" by (simp add: poolInv_def)
  have "mainStep W items s \<noteq> None"
    using live(2) True by (cases "pc s") (simp_all add: mainStep_def)
  with live show ?thesis
    by (auto simp: step_def intro!: exI [of _ Main])
qed

lemma pool_completes:
  assumes "poolInv env W items s" and w: "items \<noteq> [] \<longrightarrow> 1 \<le> W"
    and listed: "\<forall>u \<in> set items. workerItem env u \<noteq> None"
  shows "\<exists>sched s'. runPool env W items s sched = Some s'
           \<and> (pc s' = Returned \<or> exited s' \<noteq> None)"
  using assms(1)
proof (induction "stepsLeft W (length items) s" arbitrary: s rule: less_induct)
  case less
  show ?case
  proof (cases "pc s = Returned \<or> exited s \<noteq> None")
    case True
    then have "runPool env W items s [] = Some s \<and> (pc s = Returned \<or> exited s \<noteq> None)"
      by simp
    then show ?thesis by blast
  next
    case False
    with pool_progress_gen [OF less.prems w listed]
    obtain a s1 where st: "step env W items s a = Some s1" by auto
    from poolInv_step [OF less.prems st] have inv1: "poolInv env W items s1" .
    from less.hyps [OF stepsLeft_step [OF st] inv1]
    obtain sched s' where "runPool env W items s1 sched = Some s'"
      and fin: "pc s' = Returned \<or> exited s' \<noteq> None"
      by blast
    with st have "runPool env W items s (a # sched) = Some s'" by simp
    with fin show ?thesis by blast
  qed
qed

lemma step_abort:
  assumes "poolInv env W items s" and "step env W items s a = Some s'"
    and "exited s' = Some x"
  shows "\<exists>u \<in> set items. \<exists>tr. workerItem env u = Some (tr, Inl x)"
proof -
  from assms(2) have live: "exited s = None"
    by (auto simp: step_def split: if_splits)
  from assms(1) have tag: "wellTagged env items s" by (simp add: poolInv_def)
  show ?thesis
  proof (cases a)
    case Main
    with assms(2) live have "mainStep W items s = Some s'"
      by (simp add: step_def split: if_splits)
    then have "exited s' = exited s"
      by (cases rule: mainStep_cases) simp_all
    with live assms(3) show ?thesis by simp
  next
    case (Handoff k)
    with assms(2) live have "handoff items k s = Some s'"
      by (simp add: step_def split: if_splits)
    then have "exited s' = exited s"
      by (cases rule: handoff_cases) simp_all
    with live assms(3) show ?thesis by simp
  next
    case (Worker k)
    with assms(2) live have "workerStep env k s = Some s'"
      by (simp add: step_def split: if_splits)
    then show ?thesis
    proof (cases rule: workerStep_cases)
      case (failed i u tr a')
      from tag failed(1,2) have "wellTaggedWorker env items (Listing i u)"
        unfolding wellTagged_def by (metis nth_mem)
      then have "u \<in> set items" by simp
      with failed assms(3) show ?thesis by auto
    qed (use live assms(3) in simp_all)
  qed
qed

lemma runPool_ended:
  "exited s \<noteq> None \<or> pc s = Returned \<Longrightarrow> runPool env W items s sched = Some s' \<Longrightarrow> s' = s"
  by (cases sched) (auto simp: step_def)

lemma runPool_abort:
  "poolInv env W items s \<Longrightarrow> exited s = None \<Longrightarrow> runPool env W items s sched = Some s'
   \<Longrightarrow> exited s' = Some x \<Longrightarrow> \<exists>u \<in> set items. \<exists>tr. workerItem env u = Some (tr, Inl x)"
proof (induction sched arbitrary: s)
  case Nil
  then show ?case by simp
next
  case (Cons a sched)
  from Cons.prems(3) obtain s1 where st: "step env W items s a = Some s1"
    and r: "runPool env W items s1 sched = Some s'"
    by (auto split: option.splits)
  from poolInv_step [OF Cons.prems(1) st] have inv1: "poolInv env W items s1" .
  show ?case
  proof (cases "exited s1")
    case None
    from Cons.IH [OF inv1 None r Cons.prems(4)] show ?thesis .
  next
    case (Some y)
    with runPool_ended [OF _ r] have "s' = s1" by simp
    with step_abort [OF Cons.prems(1) st] Cons.prems(4) show ?thesis by simp
  qed
qed

text \<open>
  C1: in every state the pool reaches, for any list of users and any worker count, every
  user taken by a worker is either still with that worker or its result has been
  received, once; the results received are as many as the receive loop has counted, at
  most the number of users, and each is the result of the worker's listing for its user
  (the user with its keys, or nil). When \<open>main\<close> is past the receive loop it has received
  as many results as users were sent, one for each, the channel is empty and no worker
  holds a user. After that many receives the next step of \<open>main\<close> leaves the loop without
  waiting. With at least one worker, and key listings that return, the pool is never
  stuck before that and every run can be continued to the end of the process; a run has
  at most \<open>2 * W + 5 * N + 5\<close> steps.
\<close>

theorem fan_in_accounting:
  assumes run: "runPool env W items initialPool sched = Some s"
  shows "mset (map snd (takes s)) = heldTags (workers s) + mset (map fst (received s))
       \<and> length (received s) = receives (length items) (pc s)
       \<and> receives (length items) (pc s) \<le> length items
       \<and> (\<forall>(i, out) \<in> set (received s).
             i < length items \<and> (\<exists>tr. workerItem env (items ! i) = Some (tr, Inr out)))
       \<and> (pc s = Returned \<longrightarrow>
             length (received s) = length items
             \<and> mset (map fst (received s)) = mset [0..<length items]
             \<and> mset (map snd (takes s)) = mset [0..<length items]
             \<and> inputUserChan s = [] \<and> heldTags (workers s) = {#})
       \<and> (pc s = Receiving (length items) \<longrightarrow> exited s = None \<longrightarrow>
             step env W items s Main = Some (s\<lparr>pc := Returned\<rparr>))
       \<and> (1 \<le> W \<longrightarrow> (\<forall>u \<in> set items. workerItem env u \<noteq> None) \<longrightarrow>
             (exited s = None \<longrightarrow> pc s \<noteq> Returned \<longrightarrow>
                (\<exists>a s'. step env W items s a = Some s'))
             \<and> (\<exists>sched' s'. runPool env W items s sched' = Some s'
                    \<and> (pc s' = Returned \<or> exited s' \<noteq> None)))
       \<and> length sched \<le> 2 * nat W + 5 * length items + 5"
proof -
  from poolInv_reachable [OF run] have inv: "poolInv env W items s" .
  then have acc: "accounted (length items) s" and tag: "wellTagged env items s"
    by (simp_all add: poolInv_def)
  have a: "mset (map snd (takes s)) = heldTags (workers s) + mset (map fst (received s))"
    and b: "length (received s) = receives (length items) (pc s)"
    and b': "receives (length items) (pc s) \<le> length items"
    using acc by (simp_all add: accounted_def)
  have c: "\<forall>(i, out) \<in> set (received s).
             i < length items \<and> (\<exists>tr. workerItem env (items ! i) = Some (tr, Inr out))"
    using tag by (simp add: wellTagged_def)
  have d: "pc s = Returned \<longrightarrow>
             length (received s) = length items
             \<and> mset (map fst (received s)) = mset [0..<length items]
             \<and> mset (map snd (takes s)) = mset [0..<length items]
             \<and> inputUserChan s = [] \<and> heldTags (workers s) = {#}"
    using returned_drained [OF acc] b by simp
  have e: "pc s = Receiving (length items) \<longrightarrow> exited s = None \<longrightarrow>
             step env W items s Main = Some (s\<lparr>pc := Returned\<rparr>)"
    by (simp add: step_def mainStep_def)
  have f: "1 \<le> W \<longrightarrow> (\<forall>u \<in> set items. workerItem env u \<noteq> None) \<longrightarrow>
             (exited s = None \<longrightarrow> pc s \<noteq> Returned \<longrightarrow>
                (\<exists>a s'. step env W items s a = Some s'))
             \<and> (\<exists>sched' s'. runPool env W items s sched' = Some s'
                    \<and> (pc s' = Returned \<or> exited s' \<noteq> None))"
    using pool_progress [OF inv] pool_completes [OF inv] by blast
  have g: "length sched \<le> 2 * nat W + 5 * length items + 5"
    using stepsLeft_runPool [OF run] by (simp add: stepsLeft_def initialPool_def)
  from a b b' c d e f g show ?thesis by blast
qed



section \<open>The example runs\<close>

lemma demo_alice:
  "workerItem demoEnv alice =
     Some ([ListAccessKeysCall demoCreds ''alice'' None], Inr (Some aliceOut))"
  unfolding workerItem_def
  by (subst listAccessKeysLoop.simps)
     (simp add: demoEnv_def alice_def aliceOut_def toOutputUser_def demoDate_def)

lemma demo_bob:
  "workerItem demoEnv bob = Some ([ListAccessKeysCall demoCreds ''bob'' None], Inr None)"
  using first_page_empty [of demoEnv bob "\<lparr>Items = [], IsTruncated = False, Marker = None\<rparr>"]
  by (simp add: demoEnv_def bob_def)

lemmas pool_eval =
  step_def mainStep_def workerStep_def handoff_def initialPool_def demo_alice demo_bob

lemma demo_mid: "runPool demoEnv 2 [alice, bob] initialPool midSchedule = Some demoMid"
  by (simp add: midSchedule_def demoMid_def pool_eval)

lemma demo_last: "runPool demoEnv 2 [alice, bob] initialPool lastSchedule = Some demoLast"
  by (simp add: lastSchedule_def midSchedule_def demoLast_def pool_eval)

lemma demo_final: "runPool demoEnv 2 [alice, bob] initialPool demoSchedule = Some demoFinal"
  by (simp add: demoSchedule_def lastSchedule_def midSchedule_def demoFinal_def demoLast_def
      pool_eval)


theorem fan_in_accounting_witness:
  "runPool demoEnv 2 [alice, bob] initialPool midSchedule = Some demoMid
   \<and> exited demoMid = None \<and> pc demoMid = Receiving 0
   \<and> workerItem demoEnv alice \<noteq> None \<and> workerItem demoEnv bob \<noteq> None
   \<and> (\<exists>a s'. step demoEnv 2 [alice, bob] demoMid a = Some s')
   \<and> (\<exists>sched' s'. runPool demoEnv 2 [alice, bob] demoMid sched' = Some s'
          \<and> (pc s' = Returned \<or> exited s' \<noteq> None))
   \<and> runPool demoEnv 2 [alice, bob] initialPool lastSchedule = Some demoLast
   \<and> pc demoLast = Receiving (length [alice, bob])
   \<and> step demoEnv 2 [alice, bob] demoLast Main = Some demoFinal
   \<and> runPool demoEnv 2 [alice, bob] initialPool demoSchedule = Some demoFinal
   \<and> pc demoFinal = Returned
   \<and> received demoFinal = [(1, None), (0, Some aliceOut)]
   \<and> length (received demoFinal) = length [alice, bob]
   \<and> mset (map snd (takes demoFinal)) = mset [0..<length [alice, bob]]
   \<and> length demoSchedule \<le> 2 * nat 2 + 5 * length [alice, bob] + 5"
proof -
  note mid = fan_in_accounting [OF demo_mid]
  note last = fan_in_accounting [OF demo_last]
  note final = fan_in_accounting [OF demo_final]
  have defined: "\<forall>u \<in> set [alice, bob]. workerItem demoEnv u \<noteq> None"
    by (simp add: demo_alice demo_bob)
  have m: "exited demoMid = None" "pc demoMid = Receiving 0" "pc demoMid \<noteq> Returned"
    by (simp_all add: demoMid_def)
  have l: "exited demoLast = None" "pc demoLast = Receiving (length [alice, bob])"
    by (simp_all add: demoLast_def)
  have f: "pc demoFinal = Returned" "received demoFinal = [(1, None), (0, Some aliceOut)]"
    "demoLast\<lparr>pc := Returned\<rparr> = demoFinal"
    by (simp_all add: demoFinal_def demoLast_def)
  from mid defined m have
    "\<exists>a s'. step demoEnv 2 [alice, bob] demoMid a = Some s'"
    "\<exists>sched' s'. runPool demoEnv 2 [alice, bob] demoMid sched' = Some s'
          \<and> (pc s' = Returned \<or> exited s' \<noteq> None)"
    by simp_all
  moreover from last l f(3) have "step demoEnv 2 [alice, bob] demoLast Main = Some demoFinal"
    by simp
  moreover from final f have "length (received demoFinal) = length [alice, bob]"
    "mset (map snd (takes demoFinal)) = mset [0..<length [alice, bob]]"
    "length demoSchedule \<le> 2 * nat 2 + 5 * length [alice, bob] + 5"
    by simp_all
  ultimately show ?thesis
    using demo_mid demo_last demo_final m l f defined by simp
qed


section \<open>The report\<close>

lemma writeAll_written:
  "writeAll env us written = (rows, None) \<Longrightarrow> rows = written @ map userRecord us"
proof (induction us arbitrary: written)
  case Nil
  then show ?case by simp
next
  case (Cons u us)
  show ?case
  proof (cases "WriteRecord env (userRecord u)")
    case None
    with Cons.prems have "writeAll env us (written @ [userRecord u]) = (rows, None)"
      by simp
    from Cons.IH [OF this] show ?thesis by simp
  next
    case (Some err)
    with Cons.prems show ?thesis by simp
  qed
qed

lemma writeRecordsToCSV_written:
  "writeRecordsToCSV env filename us fs = (fs', None)
   \<Longrightarrow> fs' = fs(filename \<mapsto> map userRecord us)"
  by (auto simp: writeRecordsToCSV_def split: option.splits prod.splits
      dest: writeAll_written)

lemma mainProgram_success:
  assumes "mainProgram env opts fs sched = Some (None, fs')"
  shows "\<exists>tr items s. enumeration env opts = Some (tr, Inr items)
           \<and> runPool env (numOfWorker opts) items initialPool sched = Some s
           \<and> pc s = Returned \<and> exited s = None
           \<and> fs' = fs(outputFile opts \<mapsto> map userRecord (userList s))"
  using assms
  by (auto simp: mainProgram_def split: option.splits prod.splits sum.splits if_splits
      dest: writeRecordsToCSV_written)

lemma mset_collected_cong:
  "mset rs = mset rs' \<Longrightarrow> mset (collected rs) = mset (collected rs')"
proof -
  assume eq: "mset rs = mset rs'"
  have "\<And>xs. mset (collected xs) =
          sum_mset (image_mset (\<lambda>(i, out). mset (case out of None \<Rightarrow> [] | Some user \<Rightarrow> [user]))
                     (mset xs))"
    by (induct_tac xs) (auto simp: collected_def)
  with eq show ?thesis by simp
qed

lemma collected_indexed:
  "collected (map (\<lambda>i. (i, f (items ! i))) is) = List.map_filter f (map (nth items) is)"
  by (induction "is") (auto simp: collected_def List.map_filter_simps split: option.splits)

lemma returned_userList:
  assumes run: "runPool env W items initialPool sched = Some s" and ret: "pc s = Returned"
  shows "mset (userList s) = mset (List.map_filter (outcomeOf env) items)"
proof -
  let ?g = "\<lambda>i. (i, outcomeOf env (items ! i))"
  from poolInv_reachable [OF run] have acc: "accounted (length items) s"
    by (simp add: poolInv_def)
  from returned_drained [OF acc] ret
  have tags: "mset (map fst (received s)) = mset [0..<length items]" by simp
  have "\<forall>r \<in> set (received s). r = ?g (fst r)"
    using received_outcome [OF run] by (fastforce simp: outcomeOf_def)
  then have "map ?g (map fst (received s)) = received s"
    by (simp add: map_idI)
  then have "mset (received s) = mset (map ?g (map fst (received s)))"
    by simp
  also have "\<dots> = image_mset ?g (mset (map fst (received s)))"
    by (simp only: mset_map)
  also from tags have "\<dots> = mset (map ?g [0..<length items])"
    by (simp only: mset_map)
  finally have "mset (received s) = mset (map ?g [0..<length items])" .
  from mset_collected_cong [OF this]
  have "mset (collected (received s)) = mset (List.map_filter (outcomeOf env) (map (nth items) [0..<length items]))"
    by (simp only: collected_indexed)
  then show ?thesis
    by (simp add: userList_collected [OF run] map_nth)
qed

lemma workerItem_Inr:
  "workerItem env u = Some (tr, Inr out) \<Longrightarrow>
   \<exists>keys. listAccessKeysLoop env u None [] [] = Some (tr, Inr keys)
          \<and> out = toOutputUser env u keys"
  by (auto simp: workerItem_def split: option.splits prod.splits sum.splits)

lemma userRecord_toOutputUser:
  "keys \<noteq> [] \<Longrightarrow> toOutputUser env u keys = Some ou \<Longrightarrow>
   userRecord ou =
     [inputUser.accountId u, inputUser.name u]
     @ concat (map (\<lambda>ak. [accessKeyMetadata.AccessKeyId ak,
                            Format env (CreateDate ak) ''2006-01-02T15:04:05-07:00'']) keys)"
  by (auto simp: toOutputUser_def userRecord_def comp_def)

text \<open>
  C10: when the enumeration returns no user and the output file can be created and
  flushed, the program has a run to its end, every run to its end leaves the output
  file created with no row and reports no error, and no state of the pool has a result
  received, for any worker count.
\<close>

theorem empty_run:
  assumes en: "enumeration env opts = Some (tr, Inr [])"
    and cr: "CreateFile env (outputFile opts) = None" and fl: "FlushError env = None"
  shows "(\<exists>sched. mainProgram env opts fs sched = Some (None, fs(outputFile opts \<mapsto> [])))
       \<and> (\<forall>sched r. mainProgram env opts fs sched = Some r \<longrightarrow>
             r = (None, fs(outputFile opts \<mapsto> [])))
       \<and> (\<forall>sched s. runPool env (numOfWorker opts) [] initialPool sched = Some s \<longrightarrow>
             received s = [] \<and> userList s = [] \<and> exited s = None)"
proof -
  let ?W = "numOfWorker opts"
  have wr: "writeRecordsToCSV env (outputFile opts) [] fs = (fs(outputFile opts \<mapsto> []), None)"
    by (simp add: writeRecordsToCSV_def cr fl)
  have quiet: "received s = [] \<and> userList s = [] \<and> exited s = None"
    if run: "runPool env ?W [] initialPool sched = Some s" for sched s
  proof -
    from poolInv_reachable [OF run] have "accounted (length ([] :: inputUser list)) s"
      by (simp add: poolInv_def)
    then have "length (received s) = 0" unfolding accounted_def by simp
    then have r: "received s = []" by simp
    with userList_collected [OF run] have u: "userList s = []"
      by (simp add: collected_def)
    have "exited s = None"
    proof (cases "exited s")
      case (Some x)
      from runPool_abort [OF poolInv_initial _ run Some] show ?thesis
        by (simp add: initialPool_def)
    qed simp
    with r u show ?thesis by simp
  qed
  have only: "r = (None, fs(outputFile opts \<mapsto> []))"
    if m: "mainProgram env opts fs sched = Some r" for sched r
  proof -
    from m en obtain s where run: "runPool env ?W [] initialPool sched = Some s"
      by (auto simp: mainProgram_def split: option.splits)
    from quiet [OF run] m en run wr show ?thesis
      by (auto simp: mainProgram_def split: if_splits)
  qed
  from pool_completes [OF poolInv_initial, of "[]" ?W env]
  obtain sched s where run: "runPool env ?W [] initialPool sched = Some s"
    and fin: "pc s = Returned \<or> exited s \<noteq> None"
    by auto
  with quiet [OF run] have "pc s = Returned" by simp
  with quiet [OF run] en run wr
  have "mainProgram env opts fs sched = Some (None, fs(outputFile opts \<mapsto> []))"
    by (simp add: mainProgram_def)
  with quiet only show ?thesis by blast
qed

lemma demo_enumeration:
  "enumeration demoEnv demoOpts =
     Some ([AssumeRoleCall demoARN, ListUsersCall demoCreds None], Inr [alice, bob])"
proof -
  have "listUsersLoop demoEnv ''111111111111'' demoCreds None [AssumeRoleCall demoARN] [] =
          Some ([AssumeRoleCall demoARN, ListUsersCall demoCreds None], Inr [alice, bob])"
    by (subst listUsersLoop.simps) (simp add: demoEnv_def alice_def bob_def)
  then show ?thesis
    by (simp add: enumeration_def getAccountRoleListFromCSV_def validateCSVAccountRoleData_def
        getAccountId_def getRoleARN_def demoEnv_def demoOpts_def demoARN_def)
qed

lemma noUsers_enumeration:
  "enumeration noUsersEnv demoOpts =
     Some ([AssumeRoleCall demoARN, ListUsersCall demoCreds None], Inr [])"
proof -
  have "listUsersLoop noUsersEnv ''111111111111'' demoCreds None [AssumeRoleCall demoARN] [] =
          Some ([AssumeRoleCall demoARN, ListUsersCall demoCreds None], Inr [])"
    by (subst listUsersLoop.simps) (simp add: noUsersEnv_def demoEnv_def)
  then show ?thesis
    by (simp add: enumeration_def getAccountRoleListFromCSV_def validateCSVAccountRoleData_def
        getAccountId_def getRoleARN_def noUsersEnv_def demoEnv_def demoOpts_def demoARN_def)
qed

lemma empty_enumeration: "enumeration emptyEnv demoOpts = Some ([], Inr [])"
  by (simp add: enumeration_def getAccountRoleListFromCSV_def emptyEnv_def demoEnv_def
      demoOpts_def)

section \<open>The example program runs\<close>

lemma demoOpts_simps:
  "numOfWorker demoOpts = 2" "outputFile demoOpts = ''output.csv''"
  by (simp_all add: demoOpts_def)

lemma demo_main:
  "mainProgram demoEnv demoOpts Map.empty demoSchedule =
     Some (None, [''output.csv'' \<mapsto> [[''111111111111'', ''alice'', ''AKIA1'', demoDate]]])"
proof -
  have "writeRecordsToCSV demoEnv ''output.csv'' [aliceOut] Map.empty =
          ([''output.csv'' \<mapsto> [[''111111111111'', ''alice'', ''AKIA1'', demoDate]]], None)"
    by (simp add: writeRecordsToCSV_def userRecord_def aliceOut_def demoEnv_def)
  then show ?thesis
    by (simp add: mainProgram_def demo_enumeration demo_final demoFinal_def demoLast_def
        demoOpts_simps)
qed

theorem empty_run_witness:
  "enumeration emptyEnv demoOpts = Some ([], Inr [])
   \<and> CreateFile emptyEnv (outputFile demoOpts) = None \<and> FlushError emptyEnv = None
   \<and> mainProgram emptyEnv demoOpts Map.empty idleSchedule = Some (None, [''output.csv'' \<mapsto> []])
   \<and> enumeration noUsersEnv demoOpts =
       Some ([AssumeRoleCall demoARN, ListUsersCall demoCreds None], Inr [])
   \<and> CreateFile noUsersEnv (outputFile demoOpts) = None \<and> FlushError noUsersEnv = None
   \<and> mainProgram noUsersEnv demoOpts Map.empty idleSchedule = Some (None, [''output.csv'' \<mapsto> []])"
proof -
  have c1: "CreateFile emptyEnv (outputFile demoOpts) = None" "FlushError emptyEnv = None"
    and c2: "CreateFile noUsersEnv (outputFile demoOpts) = None" "FlushError noUsersEnv = None"
    by (simp_all add: emptyEnv_def noUsersEnv_def demoEnv_def)
  have idle: "runPool env 2 [] initialPool idleSchedule = Some idleFinal" for env :: "nat env"
    by (simp add: idleSchedule_def idleFinal_def step_def mainStep_def initialPool_def)
  have d1: "mainProgram emptyEnv demoOpts Map.empty idleSchedule \<noteq> None"
    using c1
    by (simp add: mainProgram_def empty_enumeration demoOpts_simps writeRecordsToCSV_def
        idle idleFinal_def)
  have d2: "mainProgram noUsersEnv demoOpts Map.empty idleSchedule \<noteq> None"
    using c2
    by (simp add: mainProgram_def noUsers_enumeration demoOpts_simps writeRecordsToCSV_def
        idle idleFinal_def)
  from d1 empty_run [OF empty_enumeration c1, of Map.empty]
  have "mainProgram emptyEnv demoOpts Map.empty idleSchedule = Some (None, [''output.csv'' \<mapsto> []])"
    by (auto simp: demoOpts_simps)
  moreover from d2 empty_run [OF noUsers_enumeration c2, of Map.empty]
  have "mainProgram noUsersEnv demoOpts Map.empty idleSchedule = Some (None, [''output.csv'' \<mapsto> []])"
    by (auto simp: demoOpts_simps)
  ultimately show ?thesis
    using empty_enumeration noUsers_enumeration c1 c2 by simp
qed

section \<open>The calls made and the aborts\<close>

lemma usersLoopShape_last:
  "usersLoopShape env c tr (tr @ [ListUsersCall c m], r) \<longleftrightarrow>
     (\<forall>x. r = Inl x \<longrightarrow>
        (\<exists>err. ListUsers env c m = Inl err
           \<and> x = Fatal \<lparr>message = ''error when listing user'',
                         zapFields = [(''error'', err)]\<rparr>))"
  by (auto simp: usersLoopShape_def)

lemma usersLoopShape_more:
  "usersLoopShape env c (tr @ [ListUsersCall c m]) y \<Longrightarrow> usersLoopShape env c tr y"
  unfolding usersLoopShape_def
  by (metis append.assoc append_Cons append_Nil)

lemma listUsersLoop_shape:
  assumes "listUsersLoop env acct c m tr acc = Some y"
  shows "usersLoopShape env c tr y"
  apply (rule listUsersLoop.raw_induct
      [where P = "\<lambda>env acct c m tr acc y. usersLoopShape env c tr y", OF _ assms])
  subgoal premises prems for loop env acct c m tr acc y
  proof (cases "ListUsers env c m")
    case (Inl err)
    with prems(2) show ?thesis by (auto simp: usersLoopShape_last)
  next
    case (Inr out)
    show ?thesis
    proof (cases "IsTruncated out")
      case False
      with Inr prems(2) show ?thesis by (auto simp: usersLoopShape_last)
    next
      case True
      with Inr prems(2) have "loop env acct c (Marker out) (tr @ [ListUsersCall c m])
          (acc @ map (\<lambda>user. \<lparr>iamClient = c, inputUser.name = UserName user,
                                 inputUser.accountId = acct\<rparr>) (Items out)) = Some y"
        by simp
      from prems(1) [OF this] show ?thesis by (rule usersLoopShape_more)
    qed
  qed
  done

lemma keysLoopShape_last:
  "keysLoopShape env u tr
     (tr @ [ListAccessKeysCall (iamClient u) (inputUser.name u) m], r) \<longleftrightarrow>
     (\<forall>x. r = Inl x \<longrightarrow>
        (\<exists>err. ListAccessKeys env (iamClient u) (inputUser.name u) m = Inl err
           \<and> x = Fatal \<lparr>message = ''error when listing access key, '' @ err,
                         zapFields = []\<rparr>))"
  by (auto simp: keysLoopShape_def)

lemma keysLoopShape_more:
  "keysLoopShape env u (tr @ [ListAccessKeysCall (iamClient u) (inputUser.name u) m]) y
   \<Longrightarrow> keysLoopShape env u tr y"
  unfolding keysLoopShape_def
  by (metis append.assoc append_Cons append_Nil)

lemma listAccessKeysLoop_shape:
  assumes "listAccessKeysLoop env u m tr acc = Some y"
  shows "keysLoopShape env u tr y"
  apply (rule listAccessKeysLoop.raw_induct
      [where P = "\<lambda>env u m tr acc y. keysLoopShape env u tr y", OF _ assms])
  subgoal premises prems for loop env u m tr acc y
  proof (cases "ListAccessKeys env (iamClient u) (inputUser.name u) m")
    case (Inl err)
    with prems(2) show ?thesis by (auto simp: keysLoopShape_last)
  next
    case (Inr out)
    show ?thesis
    proof (cases "Items out \<noteq> [] \<and> IsTruncated out")
      case False
      with Inr prems(2) show ?thesis by (auto simp: keysLoopShape_last split: if_splits)
    next
      case True
      with Inr prems(2) have "loop env u (Marker out)
          (tr @ [ListAccessKeysCall (iamClient u) (inputUser.name u) m])
          (acc @ Items out) = Some y"
        by simp
      from prems(1) [OF this] show ?thesis by (rule keysLoopShape_more)
    qed
  qed
  done

lemma workerItem_shape:
  assumes "workerItem env u = Some y"
  shows "keysLoopShape env u [] y"
proof -
  from assms obtain z where z: "listAccessKeysLoop env u None [] [] = Some z"
    and fst: "fst y = fst z" and snd: "\<forall>x. snd y = Inl x \<longrightarrow> snd z = Inl x"
    by (auto simp: workerItem_def split: option.splits prod.splits sum.splits)
  from listAccessKeysLoop_shape [OF z] fst snd show ?thesis
    unfolding keysLoopShape_def by metis
qed

lemma usersLoopShape_abort:
  "usersLoopShape env c tr (tr', Inl x) \<Longrightarrow> enumerationAbort env tr' x"
  unfolding usersLoopShape_def enumerationAbort_def
  by (metis append.assoc fst_conv snd_conv)

lemma usersLoopShape_prefix:
  "usersLoopShape env c tr (tr', r) \<Longrightarrow> \<exists>after. tr' = tr @ after"
  unfolding usersLoopShape_def by auto

lemma enumerateAccounts_abort:
  "enumerateAccounts env rs tr acc = Some (tr', Inl x) \<Longrightarrow> enumerationAbort env tr' x"
proof (induction rs arbitrary: tr acc)
  case Nil
  then show ?case by simp
next
  case (Cons r rs)
  show ?case
  proof (cases "getAccountId r")
    case None
    with Cons.prems show ?thesis by (auto simp: enumerationAbort_def)
  next
    case a: (Some a)
    show ?thesis
    proof (cases "getRoleARN r")
      case None
      with a Cons.prems show ?thesis by (auto simp: enumerationAbort_def)
    next
      case arn: (Some arn)
      show ?thesis
      proof (cases "AssumeRole env arn")
        case (Inl err)
        with a arn Cons.prems show ?thesis by (auto simp: enumerationAbort_def)
      next
        case creds: (Inr creds)
        show ?thesis
        proof (cases "LoadAssumedConfig env creds")
          case (Some err)
          with a arn creds Cons.prems show ?thesis by (auto simp: enumerationAbort_def)
        next
          case None
          show ?thesis
          proof (cases "listUsersLoop env a creds None (tr @ [AssumeRoleCall arn]) acc")
            case lnone: None
            with a arn creds None Cons.prems show ?thesis by simp
          next
            case (Some y)
            obtain tr1 r1 where y: "y = (tr1, r1)" by (cases y)
            show ?thesis
            proof (cases r1)
              case (Inl x1)
              with a arn creds None Some y Cons.prems have "tr' = tr1" "x = x1" by simp_all
              with listUsersLoop_shape [OF Some] y Inl show ?thesis
                by (auto intro: usersLoopShape_abort)
            next
              case (Inr acc1)
              with a arn creds None Some y Cons.prems
              have "enumerateAccounts env rs tr1 acc1 = Some (tr', Inl x)" by simp
              then show ?thesis by (rule Cons.IH)
            qed
          qed
        qed
      qed
    qed
  qed
qed

lemma enumerateAccounts_prefix:
  "enumerateAccounts env rs tr acc = Some (tr', r) \<Longrightarrow> \<exists>after. tr' = tr @ after"
proof (induction rs arbitrary: tr acc)
  case Nil
  then show ?case by simp
next
  case (Cons rec rs)
  show ?case
  proof (cases "listUsersLoop env (the (getAccountId rec))
                  (projr (AssumeRole env (the (getRoleARN rec)))) None
                  (tr @ [AssumeRoleCall (the (getRoleARN rec))]) acc")
    case None
    with Cons.prems show ?thesis
      by (auto split: option.splits sum.splits)
  next
    case (Some y)
    obtain tr1 r1 where y: "y = (tr1, r1)" by (cases y)
    from listUsersLoop_shape [OF Some] y obtain mid where
      tr1: "tr1 = (tr @ [AssumeRoleCall (the (getRoleARN rec))]) @ mid"
      by (auto dest: usersLoopShape_prefix)
    show ?thesis
    proof (cases r1)
      case (Inl x1)
      with Some y tr1 Cons.prems show ?thesis
        by (auto split: option.splits sum.splits)
    next
      case (Inr acc1)
      show ?thesis
      proof (cases "enumerateAccounts env rs tr1 acc1 = Some (tr', r)")
        case True
        from Cons.IH [OF this] tr1 show ?thesis by auto
      next
        case False
        with Some y Inr tr1 Cons.prems show ?thesis
          by (auto split: option.splits sum.splits)
      qed
    qed
  qed
qed

lemma enumerateAccounts_first:
  assumes "enumerateAccounts env ([a, role] # rest) [] [] = Some (tr, r)"
  shows "\<exists>after. tr = AssumeRoleCall (''arn:aws:iam::'' @ a @ '':role/'' @ role) # after"
proof -
  let ?arn = "''arn:aws:iam::'' @ a @ '':role/'' @ role"
  have g: "getAccountId [a, role] = Some a" "getRoleARN [a, role] = Some ?arn"
    by (simp_all add: getAccountId_def getRoleARN_def)
  show ?thesis
  proof (cases "AssumeRole env ?arn")
    case (Inl err)
    with assms g show ?thesis by auto
  next
    case (Inr creds)
    show ?thesis
    proof (cases "LoadAssumedConfig env creds")
      case (Some err)
      with assms g Inr show ?thesis by auto
    next
      case None
      show ?thesis
      proof (cases "listUsersLoop env a creds None [AssumeRoleCall ?arn] []")
        case lnone: None
        with assms g Inr None show ?thesis by auto
      next
        case (Some y)
        obtain tr1 r1 where y: "y = (tr1, r1)" by (cases y)
        from listUsersLoop_shape [OF Some] y obtain mid where
          tr1: "tr1 = AssumeRoleCall ?arn # mid"
          by (auto dest: usersLoopShape_prefix)
        show ?thesis
        proof (cases r1)
          case (Inl x1)
          with assms g Inr None Some y tr1 show ?thesis by auto
        next
          case r1: (Inr acc1)
          with assms g Inr None Some y
          have "enumerateAccounts env rest tr1 acc1 = Some (tr, r)" by simp
          from enumerateAccounts_prefix [OF this] tr1 show ?thesis by auto
        qed
      qed
    qed
  qed
qed

lemma readRecords_all_good:
  "\<forall>g \<in> set good. validateCSVAccountRoleData (Some g) = None \<Longrightarrow>
   readRecords (map (\<lambda>g. Record (Some g)) good) acc = Inr (acc @ good)"
  by (induction good arbitrary: acc) auto

text \<open>
  C9: a record of two fields whose first field has length 12 passes validation, whatever
  its characters, and its role ARN is built from that field; when such a record opens an
  account list of valid records, the first remote call of the run is the role assumption
  with that ARN.
\<close>

theorem validation_checks_length_only:
  assumes len: "length a = 12"
  shows "validateCSVAccountRoleData (Some [a, role]) = None
       \<and> getRoleARN [a, role] = Some (''arn:aws:iam::'' @ a @ '':role/'' @ role)
       \<and> (LoadDefaultConfig env (awsProfileName opts) = None \<longrightarrow>
           OpenFile env (accountListFile opts)
             = Inr (map (\<lambda>g. Record (Some g)) ([a, role] # others)) \<longrightarrow>
           (\<forall>g \<in> set others. validateCSVAccountRoleData (Some g) = None) \<longrightarrow>
           (\<forall>tr r. enumeration env opts = Some (tr, r) \<longrightarrow>
              (\<exists>after. tr = AssumeRoleCall (''arn:aws:iam::'' @ a @ '':role/'' @ role) # after)))"
proof (intro conjI impI allI)
  show v: "validateCSVAccountRoleData (Some [a, role]) = None"
    using len by (simp add: validateCSVAccountRoleData_def)
  show "getRoleARN [a, role] = Some (''arn:aws:iam::'' @ a @ '':role/'' @ role)"
    by (simp add: getRoleARN_def)
  fix tr r
  assume cfg: "LoadDefaultConfig env (awsProfileName opts) = None"
    and csvf: "OpenFile env (accountListFile opts)
                 = Inr (map (\<lambda>g. Record (Some g)) ([a, role] # others))"
    and good: "\<forall>g \<in> set others. validateCSVAccountRoleData (Some g) = None"
    and en: "enumeration env opts = Some (tr, r)"
  from v good have "\<forall>g \<in> set ([a, role] # others). validateCSVAccountRoleData (Some g) = None"
    by simp
  from readRecords_all_good [OF this, of "[]"] csvf
  have "getAccountRoleListFromCSV env (accountListFile opts) = Inr ([a, role] # others)"
    by (simp add: getAccountRoleListFromCSV_def)
  with cfg en have "enumerateAccounts env ([a, role] # others) [] [] = Some (tr, r)"
    by (simp add: enumeration_def)
  then show "\<exists>after. tr = AssumeRoleCall (''arn:aws:iam::'' @ a @ '':role/'' @ role) # after"
    by (rule enumerateAccounts_first)
qed

lemma letters_enumeration:
  "enumeration lettersEnv demoOpts =
     Some ([AssumeRoleCall ''arn:aws:iam::abcdefghijkl:role/ReadOnly'',
            ListUsersCall demoCreds None],
           Inr [alice\<lparr>inputUser.accountId := ''abcdefghijkl''\<rparr>,
                bob\<lparr>inputUser.accountId := ''abcdefghijkl''\<rparr>])"
proof -
  have "listUsersLoop lettersEnv ''abcdefghijkl'' demoCreds None
          [AssumeRoleCall ''arn:aws:iam::abcdefghijkl:role/ReadOnly''] [] =
          Some ([AssumeRoleCall ''arn:aws:iam::abcdefghijkl:role/ReadOnly'',
                 ListUsersCall demoCreds None],
                Inr [alice\<lparr>inputUser.accountId := ''abcdefghijkl''\<rparr>,
                     bob\<lparr>inputUser.accountId := ''abcdefghijkl''\<rparr>])"
    by (subst listUsersLoop.simps) (simp add: lettersEnv_def demoEnv_def alice_def bob_def)
  then show ?thesis
    by (simp add: enumeration_def getAccountRoleListFromCSV_def validateCSVAccountRoleData_def
        getAccountId_def getRoleARN_def lettersEnv_def demoEnv_def demoOpts_def)
qed

theorem validation_checks_length_only_witness:
  "length ''abcdefghijkl'' = 12
   \<and> validateCSVAccountRoleData (Some [''abcdefghijkl'', ''ReadOnly'']) = None
   \<and> getRoleARN [''abcdefghijkl'', ''ReadOnly'']
       = Some ''arn:aws:iam::abcdefghijkl:role/ReadOnly''
   \<and> LoadDefaultConfig lettersEnv (awsProfileName demoOpts) = None
   \<and> OpenFile lettersEnv (accountListFile demoOpts)
       = Inr [Record (Some [''abcdefghijkl'', ''ReadOnly''])]
   \<and> (\<exists>after r. enumeration lettersEnv demoOpts =
         Some (AssumeRoleCall ''arn:aws:iam::abcdefghijkl:role/ReadOnly'' # after, r))"
proof -
  have len: "length ''abcdefghijkl'' = 12" by simp
  have cfg: "LoadDefaultConfig lettersEnv (awsProfileName demoOpts) = None"
    by (simp add: lettersEnv_def demoEnv_def)
  have csvf: "OpenFile lettersEnv (accountListFile demoOpts)
       = Inr (map (\<lambda>g. Record (Some g)) ([''abcdefghijkl'', ''ReadOnly''] # []))"
    by (simp add: lettersEnv_def demoEnv_def)
  have good: "\<forall>g \<in> set []. validateCSVAccountRoleData (Some g) = None" by simp
  note t = validation_checks_length_only [OF len, of "''ReadOnly''" lettersEnv demoOpts "[]"]
  from t cfg csvf good have
    "\<forall>tr r. enumeration lettersEnv demoOpts = Some (tr, r) \<longrightarrow>
       (\<exists>after. tr = AssumeRoleCall (''arn:aws:iam::'' @ ''abcdefghijkl'' @ '':role/'' @ ''ReadOnly'') # after)"
    by blast
  with letters_enumeration
  have "\<exists>after r. enumeration lettersEnv demoOpts =
         Some (AssumeRoleCall ''arn:aws:iam::abcdefghijkl:role/ReadOnly'' # after, r)"
    by simp
  with t len cfg csvf show ?thesis by simp
qed

lemma mainProgram_abort_files:
  assumes "mainProgram env opts fs sched = Some (Some x, fs')"
  shows "fs' = fs
         \<or> (\<exists>err. x = Fatal \<lparr>message = ''error when writing records to CSV file'',
                                zapFields = [(''error'', err)]\<rparr>)"
  using assms
  by (auto simp: mainProgram_def split: option.splits prod.splits sum.splits if_splits)

lemma step_after_exit: "exited s = Some x \<Longrightarrow> step env W items s a = None"
  by (simp add: step_def)

lemma denied_enumeration:
  "enumeration deniedEnv demoOpts =
     Some ([AssumeRoleCall demoARN, ListUsersCall demoCreds None], Inl deniedFatal)"
proof -
  have "listUsersLoop deniedEnv ''111111111111'' demoCreds None [AssumeRoleCall demoARN] [] =
          Some ([AssumeRoleCall demoARN, ListUsersCall demoCreds None], Inl deniedFatal)"
    by (subst listUsersLoop.simps) (simp add: deniedEnv_def demoEnv_def deniedFatal_def)
  then show ?thesis
    by (simp add: enumeration_def getAccountRoleListFromCSV_def validateCSVAccountRoleData_def
        getAccountId_def getRoleARN_def deniedEnv_def demoEnv_def demoOpts_def demoARN_def)
qed

lemma denied_enumeration_other:
  "enumeration deniedEnv (demoOpts\<lparr>accountListFile := ''other.csv''\<rparr>) =
     Some ([AssumeRoleCall ''arn:aws:iam::222222222222:role/ReadOnly'',
            ListUsersCall demoCreds None], Inl deniedFatal)"
proof -
  have "listUsersLoop deniedEnv ''222222222222'' demoCreds None
          [AssumeRoleCall ''arn:aws:iam::222222222222:role/ReadOnly''] [] =
          Some ([AssumeRoleCall ''arn:aws:iam::222222222222:role/ReadOnly'',
                 ListUsersCall demoCreds None], Inl deniedFatal)"
    by (subst listUsersLoop.simps) (simp add: deniedEnv_def demoEnv_def deniedFatal_def)
  then show ?thesis
    by (simp add: enumeration_def getAccountRoleListFromCSV_def validateCSVAccountRoleData_def
        getAccountId_def getRoleARN_def deniedEnv_def demoEnv_def demoOpts_def)
qed

lemma throttled_alice:
  "workerItem throttledEnv alice =
     Some ([ListAccessKeysCall demoCreds ''alice'' None], Inl throttledFatal)"
  unfolding workerItem_def
  by (subst listAccessKeysLoop.simps)
     (simp add: throttledEnv_def demoEnv_def alice_def throttledFatal_def)

lemma throttled_bob:
  "workerItem throttledEnv bob =
     Some ([ListAccessKeysCall demoCreds ''bob'' None], Inl throttledFatal)"
  unfolding workerItem_def
  by (subst listAccessKeysLoop.simps)
     (simp add: throttledEnv_def demoEnv_def bob_def throttledFatal_def)

text \<open>
  C7 as stated fails: the fatal entry of a failed user listing is the same for the
  accounts \<open>111111111111\<close> and \<open>222222222222\<close>, and the fatal entry of a failed key listing
  is the same for alice and bob: neither names the account, the role or the user.
\<close>

theorem remote_failure_context_counterexample:
  "enumeration deniedEnv demoOpts =
     Some ([AssumeRoleCall ''arn:aws:iam::111111111111:role/ReadOnly'',
            ListUsersCall demoCreds None], Inl deniedFatal)
   \<and> enumeration deniedEnv (demoOpts\<lparr>accountListFile := ''other.csv''\<rparr>) =
       Some ([AssumeRoleCall ''arn:aws:iam::222222222222:role/ReadOnly'',
              ListUsersCall demoCreds None], Inl deniedFatal)
   \<and> deniedFatal =
       Fatal \<lparr>message = ''error when listing user'',
              zapFields = [(''error'', ''request send failed'')]\<rparr>
   \<and> workerItem throttledEnv alice =
       Some ([ListAccessKeysCall demoCreds ''alice'' None], Inl throttledFatal)
   \<and> workerItem throttledEnv bob =
       Some ([ListAccessKeysCall demoCreds ''bob'' None], Inl throttledFatal)
   \<and> throttledFatal =
       Fatal \<lparr>message = ''error when listing access key, Throttling'', zapFields = []\<rparr>"
  using denied_enumeration denied_enumeration_other throttled_alice throttled_bob
  by (simp add: demoARN_def deniedFatal_def throttledFatal_def)

section \<open>The enumeration over what the services hold\<close>

lemma getRoleARN_Some:
  "getRoleARN r = Some roleARN \<Longrightarrow>
   getAccountId r = Some (hd r) \<and> roleARN = ''arn:aws:iam::'' @ hd r @ '':role/'' @ hd (tl r)"
  by (auto simp: getRoleARN_def getAccountId_def split: list.splits)

lemma enumerateAccounts_served:
  "servesAccounts env rs accts \<Longrightarrow>
   enumerateAccounts env (rs @ rest) tr acc =
     enumerateAccounts env rest (tr @ listingCalls rs accts) (acc @ heldUsers rs accts)"
proof (induction env rs accts arbitrary: tr acc rule: servesAccounts.induct)
  case (1 env)
  then show ?case by simp
next
  case (2 env r rs creds pages accts)
  from "2.prems" obtain roleARN where arn: "getRoleARN r = Some roleARN"
    and ar: "AssumeRole env roleARN = Inr creds" and cf: "LoadAssumedConfig env creds = None"
    and us: "servesUsers env creds None pages" and rest': "servesAccounts env rs accts"
    by (auto split: option.splits)
  from getRoleARN_Some [OF arn] have a: "getAccountId r = Some (hd r)"
    and arn': "roleARN = ''arn:aws:iam::'' @ hd r @ '':role/'' @ hd (tl r)"
    by simp_all
  have "enumerateAccounts env (r # rs @ rest) tr acc =
          enumerateAccounts env (rs @ rest)
            (tr @ AssumeRoleCall roleARN # map (ListUsersCall creds) (requested None pages))
            (acc @ concat (map (\<lambda>page. toInputUsers (hd r) creds (Items page)) pages))"
    using a arn ar cf listUsersLoop_pages [OF us, of "hd r" "tr @ [AssumeRoleCall roleARN]" acc]
    by simp
  also have "\<dots> = enumerateAccounts env rest
            ((tr @ AssumeRoleCall roleARN # map (ListUsersCall creds) (requested None pages))
             @ listingCalls rs accts)
            ((acc @ concat (map (\<lambda>page. toInputUsers (hd r) creds (Items page)) pages))
             @ heldUsers rs accts)"
    by (rule "2.IH" [OF arn rest'])
  finally show ?case by (simp add: arn')
next
  case (3 env acct accts)
  then show ?case by simp
next
  case (4 env r rs)
  then show ?case by simp
qed

lemma listUsersLoop_fails:
  "usersFailAfter env client marker pages err \<Longrightarrow>
   listUsersLoop env acct client marker tr acc =
     Some (tr @ map (ListUsersCall client) (marker # map Marker pages),
           Inl (Fatal \<lparr>message = ''error when listing user'', zapFields = [(''error'', err)]\<rparr>))"
proof (induction pages arbitrary: marker tr acc)
  case Nil
  then show ?case by (subst listUsersLoop.simps) simp
next
  case (Cons page pages)
  from Cons.prems have p: "ListUsers env client marker = Inr page" "IsTruncated page"
    and rest: "usersFailAfter env client (Marker page) pages err"
    by simp_all
  show ?case
    by (subst listUsersLoop.simps) (simp add: p Cons.IH [OF rest])
qed

lemma listAccessKeysLoop_fails:
  "keysFailAfter env u marker pages err \<Longrightarrow>
   listAccessKeysLoop env u marker tr acc =
     Some (tr @ map (ListAccessKeysCall (iamClient u) (inputUser.name u))
                    (marker # map Marker pages),
           Inl (Fatal \<lparr>message = ''error when listing access key, '' @ err,
                       zapFields = []\<rparr>))"
proof (induction pages arbitrary: marker tr acc)
  case Nil
  then show ?case by (subst listAccessKeysLoop.simps) simp
next
  case (Cons page pages)
  from Cons.prems have
    p: "ListAccessKeys env (iamClient u) (inputUser.name u) marker = Inr page"
      "Items page \<noteq> []" "IsTruncated page"
    and rest: "keysFailAfter env u (Marker page) pages err"
    by simp_all
  show ?case
    by (subst listAccessKeysLoop.simps) (simp add: p Cons.IH [OF rest])
qed

section \<open>The report over what the services hold\<close>

lemma workerItem_pages:
  assumes "servesKeys env u None pages"
  shows "workerItem env u =
           Some (map (ListAccessKeysCall (iamClient u) (inputUser.name u))
                     (requested None (visited pages)),
                 Inr (toOutputUser env u (concat (map Items (kept pages)))))"
  using listAccessKeysLoop_pages [OF assms, of "[]" "[]"]
  by (simp add: workerItem_def)

lemma outcomeOf_pages:
  assumes "servesKeys env u None (keyPages u)"
  shows "map_option userRecord (outcomeOf env u) = reportRow env keyPages u"
proof (cases "concat (map Items (kept (keyPages u))) = []")
  case True
  then show ?thesis
    by (simp add: outcomeOf_def workerItem_pages [OF assms] toOutputUser_def reportRow_def)
next
  case False
  then obtain ou where ou: "toOutputUser env u (concat (map Items (kept (keyPages u)))) = Some ou"
    by (simp add: toOutputUser_def)
  from userRecord_toOutputUser [OF False ou] ou False show ?thesis
    by (simp add: outcomeOf_def workerItem_pages [OF assms] reportRow_def keyRow_def)
qed

lemma map_map_filter:
  "map f (List.map_filter g xs) = List.map_filter (\<lambda>x. map_option f (g x)) xs"
  by (induction xs) (auto simp: List.map_filter_simps split: option.splits)

lemma map_filter_cong_set:
  "\<forall>x \<in> set xs. f x = g x \<Longrightarrow> List.map_filter f xs = List.map_filter g xs"
  by (induction xs) (auto simp: List.map_filter_simps split: option.splits)

lemma report_of_pages:
  assumes "\<forall>u \<in> set items. servesKeys env u None (keyPages u)"
  shows "map userRecord (List.map_filter (outcomeOf env) items)
         = List.map_filter (reportRow env keyPages) items"
  unfolding map_map_filter
  by (rule map_filter_cong_set) (use assms in \<open>auto simp: outcomeOf_pages\<close>)

lemma writeAll_ok:
  "\<forall>r. WriteRecord env r = None \<Longrightarrow>
   writeAll env us written = (written @ map userRecord us, None)"
  by (induction us arbitrary: written) simp_all

lemma enumeration_served:
  assumes cfg: "LoadDefaultConfig env (awsProfileName opts) = None"
    and csvf: "OpenFile env (accountListFile opts) = Inr (map (\<lambda>g. Record (Some g)) rs)"
    and valid: "\<forall>g \<in> set rs. validateCSVAccountRoleData (Some g) = None"
    and accts: "servesAccounts env rs accts"
  shows "enumeration env opts = Some (listingCalls rs accts, Inr (heldUsers rs accts))"
proof -
  from readRecords_all_good [OF valid, of "[]"] csvf
  have "getAccountRoleListFromCSV env (accountListFile opts) = Inr rs"
    by (simp add: getAccountRoleListFromCSV_def)
  with cfg enumerateAccounts_served [OF accts, of "[]" "[]" "[]"] show ?thesis
    by (simp add: enumeration_def)
qed

text \<open>
  C6, as amended: let the account list hold valid records, the services hold users for
  its accounts in pages, and keys for each of these users in pages. Then the enumeration
  returns exactly these users, and whenever the program ends without error the output
  file holds, in some order, exactly one row for each of them whose first page of keys
  has a key, and no row for the others: the account, the user name and then, for each key
  of the pages before the first page without items, its identifier and its creation date
  as \<open>Format\<close> renders it with the layout \<open>2006-01-02T15:04:05-07:00\<close>. For a user none
  of whose pages with a cursor is without items these are all the keys the service holds
  for the user, and the user has a row exactly when it has a key. With a worker (or no
  user), and a file that can be created, written and flushed, the program has such a
  run.
\<close>

theorem report_rows:
  assumes cfg: "LoadDefaultConfig env (awsProfileName opts) = None"
    and csvf: "OpenFile env (accountListFile opts) = Inr (map (\<lambda>g. Record (Some g)) rs)"
    and valid: "\<forall>g \<in> set rs. validateCSVAccountRoleData (Some g) = None"
    and accts: "servesAccounts env rs accts"
    and keys: "\<forall>u \<in> set (heldUsers rs accts). servesKeys env u None (keyPages u)"
  shows "enumeration env opts = Some (listingCalls rs accts, Inr (heldUsers rs accts))
       \<and> (\<forall>fs sched fs'. mainProgram env opts fs sched = Some (None, fs') \<longrightarrow>
            (\<exists>rows. fs' = fs(outputFile opts \<mapsto> rows)
               \<and> mset rows
                   = mset (List.map_filter (reportRow env keyPages) (heldUsers rs accts))))
       \<and> (\<forall>u \<in> set (heldUsers rs accts).
             (\<forall>page \<in> set (butlast (keyPages u)). Items page \<noteq> []) \<longrightarrow>
             reportRow env keyPages u =
               (if concat (map Items (keyPages u)) = [] then None
                else Some (keyRow env u (concat (map Items (keyPages u))))))
       \<and> ((heldUsers rs accts \<noteq> [] \<longrightarrow> 1 \<le> numOfWorker opts) \<longrightarrow>
           CreateFile env (outputFile opts) = None \<longrightarrow> (\<forall>r. WriteRecord env r = None) \<longrightarrow>
           FlushError env = None \<longrightarrow>
           (\<forall>fs. \<exists>sched rows. mainProgram env opts fs sched
                                  = Some (None, fs(outputFile opts \<mapsto> rows))))"
proof (intro conjI allI impI ballI)
  let ?items = "heldUsers rs accts"
  show en: "enumeration env opts = Some (listingCalls rs accts, Inr ?items)"
    by (rule enumeration_served [OF cfg csvf valid accts])
  {
    fix fs sched fs'
    assume "mainProgram env opts fs sched = Some (None, fs')"
    from mainProgram_success [OF this] en obtain s where
      run: "runPool env (numOfWorker opts) ?items initialPool sched = Some s"
      and ret: "pc s = Returned"
      and fs': "fs' = fs(outputFile opts \<mapsto> map userRecord (userList s))"
      by auto
    from returned_userList [OF run ret]
    have "mset (map userRecord (userList s))
          = mset (map userRecord (List.map_filter (outcomeOf env) ?items))"
      by (simp only: mset_map)
    with report_of_pages [OF keys] fs'
    show "\<exists>rows. fs' = fs(outputFile opts \<mapsto> rows)
               \<and> mset rows = mset (List.map_filter (reportRow env keyPages) ?items)"
      by auto
  }
  {
    fix u
    assume "\<forall>page \<in> set (butlast (keyPages u)). Items page \<noteq> []"
    from kept_all [OF this]
    show "reportRow env keyPages u =
               (if concat (map Items (keyPages u)) = [] then None
                else Some (keyRow env u (concat (map Items (keyPages u)))))"
      by (simp add: reportRow_def)
  }
  {
    fix fs
    assume w: "heldUsers rs accts \<noteq> [] \<longrightarrow> 1 \<le> numOfWorker opts"
      and cr: "CreateFile env (outputFile opts) = None"
      and wr: "\<forall>r. WriteRecord env r = None" and fl: "FlushError env = None"
    have returns: "\<forall>u \<in> set ?items. workerItem env u \<noteq> None"
      using keys by (auto simp: workerItem_pages)
    from pool_completes [OF poolInv_initial w returns]
    obtain sched s where run: "runPool env (numOfWorker opts) ?items initialPool sched = Some s"
      and fin: "pc s = Returned \<or> exited s \<noteq> None"
      by blast
    have live: "exited s = None"
    proof (cases "exited s")
      case (Some x)
      from runPool_abort [OF poolInv_initial _ run Some]
      obtain u tr where "u \<in> set ?items" "workerItem env u = Some (tr, Inl x)"
        by (auto simp: initialPool_def)
      with keys show ?thesis by (auto simp: workerItem_pages)
    qed simp
    with fin have ret: "pc s = Returned" by simp
    from en run live ret cr fl writeAll_ok [OF wr, of "userList s" "[]"]
    have "mainProgram env opts fs sched
            = Some (None, fs(outputFile opts \<mapsto> map userRecord (userList s)))"
      by (simp add: mainProgram_def writeRecordsToCSV_def)
    then show "\<exists>sched rows. mainProgram env opts fs sched
                                  = Some (None, fs(outputFile opts \<mapsto> rows))"
      by blast
  }
qed

section \<open>The example reports\<close>

lemma paged_serves:
  "servesKeys pagedEnv carol None carolKeys" "servesKeys pagedEnv dave None daveKeys"
  "servesKeys pagedEnv erin None erinKeys"
  by (simp_all add: pagedEnv_def demoEnv_def carol_def dave_def erin_def carolKeys_def
      daveKeys_def erinKeys_def)

lemma gap_serves:
  "servesKeys gapEnv carol None carolKeys" "servesKeys gapEnv erin None erinKeys"
  by (simp_all add: gapEnv_def pagedEnv_def demoEnv_def carol_def erin_def carolKeys_def
      erinKeys_def)

lemma carol_kept: "concat (map Items (kept carolKeys)) = [demoKey ''AKIA1'']"
  "requested None (visited carolKeys) = [None, Some ''n1'']"
  by (simp_all add: kept_def visited_def requested_def carolKeys_def)

lemma dave_kept: "concat (map Items (kept daveKeys)) = [demoKey ''AKIA3'', demoKey ''AKIA4'']"
  "requested None (visited daveKeys) = [None, Some ''n1'']"
  by (simp_all add: kept_def visited_def requested_def daveKeys_def)

lemma erin_kept: "concat (map Items (kept erinKeys)) = []"
  "requested None (visited erinKeys) = [None]"
  by (simp_all add: kept_def visited_def requested_def erinKeys_def)

lemma paged_format: "Format pagedEnv t layout = demoDate" "Format gapEnv t layout = demoDate"
  by (simp_all add: gapEnv_def pagedEnv_def demoEnv_def demoDate_def)

lemma paged_items:
  "workerItem pagedEnv carol =
     Some ([ListAccessKeysCall demoCreds ''carol'' None,
            ListAccessKeysCall demoCreds ''carol'' (Some ''n1'')], Inr (Some carolOut))"
  "workerItem pagedEnv dave =
     Some ([ListAccessKeysCall demoCreds ''dave'' None,
            ListAccessKeysCall demoCreds ''dave'' (Some ''n1'')], Inr (Some daveOut))"
  unfolding workerItem_pages [OF paged_serves(1)] workerItem_pages [OF paged_serves(2)]
    carol_kept dave_kept
  by (simp_all add: toOutputUser_def carol_def dave_def carolOut_def daveOut_def
      demoKey_def paged_format)

lemma gap_items:
  "workerItem gapEnv carol =
     Some ([ListAccessKeysCall demoCreds ''carol'' None,
            ListAccessKeysCall demoCreds ''carol'' (Some ''n1'')], Inr (Some carolOut))"
  "workerItem gapEnv erin = Some ([ListAccessKeysCall demoCreds ''erin'' None], Inr None)"
  unfolding workerItem_pages [OF gap_serves(1)] workerItem_pages [OF gap_serves(2)]
    carol_kept erin_kept
  by (simp_all add: toOutputUser_def carol_def erin_def carolOut_def demoKey_def paged_format)

lemma paged_run:
  "runPool pagedEnv 2 [carol, dave] initialPool demoSchedule = Some pagedFinal"
  by (simp add: demoSchedule_def lastSchedule_def midSchedule_def pagedFinal_def
      step_def mainStep_def workerStep_def handoff_def initialPool_def paged_items)

lemma gap_run:
  "runPool gapEnv 2 [erin, carol] initialPool demoSchedule = Some gapFinal"
  by (simp add: demoSchedule_def lastSchedule_def midSchedule_def gapFinal_def
      step_def mainStep_def workerStep_def handoff_def initialPool_def gap_items)

lemma paged_accounts:
  "servesAccounts pagedEnv [[''111111111111'', ''ReadOnly'']] [(demoCreds, [carolPage, davePage])]"
  "heldUsers [[''111111111111'', ''ReadOnly'']] [(demoCreds, [carolPage, davePage])] = [carol, dave]"
  "listingCalls [[''111111111111'', ''ReadOnly'']] [(demoCreds, [carolPage, davePage])]
     = [AssumeRoleCall demoARN, ListUsersCall demoCreds None, ListUsersCall demoCreds (Some ''m1'')]"
  by (simp_all add: getRoleARN_def pagedEnv_def demoEnv_def carolPage_def davePage_def
      toInputUsers_def carol_def dave_def requested_def demoARN_def)

lemma gap_enumeration:
  "enumeration gapEnv demoOpts =
     Some ([AssumeRoleCall demoARN, ListUsersCall demoCreds None], Inr [erin, carol])"
proof -
  have "listUsersLoop gapEnv ''111111111111'' demoCreds None [AssumeRoleCall demoARN] [] =
          Some ([AssumeRoleCall demoARN, ListUsersCall demoCreds None], Inr [erin, carol])"
    by (subst listUsersLoop.simps)
       (simp add: gapEnv_def pagedEnv_def demoEnv_def erin_def carol_def)
  then show ?thesis
    by (simp add: enumeration_def getAccountRoleListFromCSV_def validateCSVAccountRoleData_def
        getAccountId_def getRoleARN_def gapEnv_def pagedEnv_def demoEnv_def demoOpts_def
        demoARN_def)
qed

lemma gap_main:
  "mainProgram gapEnv demoOpts Map.empty demoSchedule
     = Some (None, [''output.csv'' \<mapsto> [carolRow]])"
proof -
  have "writeRecordsToCSV gapEnv ''output.csv'' [carolOut] Map.empty =
          ([''output.csv'' \<mapsto> [carolRow]], None)"
    by (simp add: writeRecordsToCSV_def userRecord_def carolOut_def carolRow_def gapEnv_def
        pagedEnv_def demoEnv_def)
  then show ?thesis
    by (simp add: mainProgram_def gap_enumeration gap_run gapFinal_def demoOpts_simps)
qed

text \<open>
  C6 as stated fails: the service holds the key \<open>AKIA5\<close> for erin, behind a first page
  without items, and the keys \<open>AKIA1\<close> and \<open>AKIA2\<close> for carol, the second behind a page
  without items; the program ends without error, and the report has no row for erin and
  a single pair in the row of carol.
\<close>

theorem report_rows_gap_counterexample:
  "enumeration gapEnv demoOpts =
     Some ([AssumeRoleCall demoARN, ListUsersCall demoCreds None], Inr [erin, carol])
   \<and> servesKeys gapEnv erin None erinKeys
   \<and> concat (map Items erinKeys) = [demoKey ''AKIA5'']
   \<and> servesKeys gapEnv carol None carolKeys
   \<and> concat (map Items carolKeys) = [demoKey ''AKIA1'', demoKey ''AKIA2'']
   \<and> mainProgram gapEnv demoOpts Map.empty demoSchedule
       = Some (None, [''output.csv'' \<mapsto> [[''111111111111'', ''carol'', ''AKIA1'', demoDate]]])"
  using gap_enumeration gap_serves gap_main
  by (simp add: erinKeys_def carolKeys_def carolRow_def)

lemma paged_keys:
  "pagedKeys carol = carolKeys" "pagedKeys dave = daveKeys"
  by (simp_all add: pagedKeys_def carol_def dave_def)

theorem report_rows_witness:
  "LoadDefaultConfig pagedEnv (awsProfileName demoOpts) = None
   \<and> OpenFile pagedEnv (accountListFile demoOpts)
       = Inr [Record (Some [''111111111111'', ''ReadOnly''])]
   \<and> validateCSVAccountRoleData (Some [''111111111111'', ''ReadOnly'']) = None
   \<and> servesAccounts pagedEnv [[''111111111111'', ''ReadOnly'']]
         [(demoCreds, [carolPage, davePage])]
   \<and> servesKeys pagedEnv carol None (pagedKeys carol)
   \<and> servesKeys pagedEnv dave None (pagedKeys dave)
   \<and> enumeration pagedEnv demoOpts =
       Some ([AssumeRoleCall demoARN, ListUsersCall demoCreds None,
              ListUsersCall demoCreds (Some ''m1'')], Inr [carol, dave])
   \<and> mainProgram pagedEnv demoOpts Map.empty demoSchedule
       = Some (None, [''output.csv'' \<mapsto> [daveRow, carolRow]])
   \<and> mset [daveRow, carolRow]
       = mset (List.map_filter (reportRow pagedEnv pagedKeys) [carol, dave])
   \<and> reportRow pagedEnv pagedKeys carol = Some carolRow
   \<and> butlast (pagedKeys dave) = [daveKeys ! 0] \<and> Items (daveKeys ! 0) \<noteq> []
   \<and> reportRow pagedEnv pagedKeys dave
       = Some (keyRow pagedEnv dave (concat (map Items (pagedKeys dave))))
   \<and> keyRow pagedEnv dave (concat (map Items (pagedKeys dave))) = daveRow
   \<and> 1 \<le> numOfWorker demoOpts \<and> CreateFile pagedEnv (outputFile demoOpts) = None
   \<and> WriteRecord pagedEnv daveRow = None \<and> FlushError pagedEnv = None
   \<and> (\<exists>sched rows. mainProgram pagedEnv demoOpts Map.empty sched
                        = Some (None, [''output.csv'' \<mapsto> rows]))"
proof -
  let ?rs = "[[''111111111111'', ''ReadOnly'']]"
  let ?accts = "[(demoCreds, [carolPage, davePage])]"
  have cfg: "LoadDefaultConfig pagedEnv (awsProfileName demoOpts) = None"
    by (simp add: pagedEnv_def demoEnv_def)
  have csvf: "OpenFile pagedEnv (accountListFile demoOpts)
                = Inr (map (\<lambda>g. Record (Some g)) ?rs)"
    by (simp add: pagedEnv_def demoEnv_def)
  have v: "validateCSVAccountRoleData (Some [''111111111111'', ''ReadOnly'']) = None"
    by (simp add: validateCSVAccountRoleData_def)
  then have valid: "\<forall>g \<in> set ?rs. validateCSVAccountRoleData (Some g) = None"
    by simp
  have keys: "\<forall>u \<in> set (heldUsers ?rs ?accts). servesKeys pagedEnv u None (pagedKeys u)"
    unfolding paged_accounts(2) by (simp add: paged_keys paged_serves)
  note t = report_rows [OF cfg csvf valid paged_accounts(1) keys, unfolded paged_accounts(2,3)]
  from t have en: "enumeration pagedEnv demoOpts =
       Some ([AssumeRoleCall demoARN, ListUsersCall demoCreds None,
              ListUsersCall demoCreds (Some ''m1'')], Inr [carol, dave])"
    by (simp add: paged_accounts)
  have "writeRecordsToCSV pagedEnv ''output.csv'' [daveOut, carolOut] Map.empty =
          ([''output.csv'' \<mapsto> [daveRow, carolRow]], None)"
    by (simp add: writeRecordsToCSV_def userRecord_def carolOut_def daveOut_def carolRow_def
        daveRow_def pagedEnv_def demoEnv_def)
  then have main: "mainProgram pagedEnv demoOpts Map.empty demoSchedule
       = Some (None, [''output.csv'' \<mapsto> [daveRow, carolRow]])"
    by (simp add: mainProgram_def en paged_run pagedFinal_def demoOpts_simps)
  from t main obtain rows where
    "[''output.csv'' \<mapsto> [daveRow, carolRow]] = Map.empty(outputFile demoOpts \<mapsto> rows)"
    and "mset rows = mset (List.map_filter (reportRow pagedEnv pagedKeys) [carol, dave])"
    by blast
  then have ms: "mset [daveRow, carolRow]
       = mset (List.map_filter (reportRow pagedEnv pagedKeys) [carol, dave])"
    by (auto simp: paged_accounts demoOpts_simps dest: map_upd_eqD1)
  have bl: "butlast (pagedKeys dave) = [daveKeys ! 0]" "Items (daveKeys ! 0) \<noteq> []"
    by (simp_all add: paged_keys daveKeys_def)
  then have "\<forall>page \<in> set (butlast (pagedKeys dave)). Items page \<noteq> []" by simp
  with t have rd: "reportRow pagedEnv pagedKeys dave
       = Some (keyRow pagedEnv dave (concat (map Items (pagedKeys dave))))"
    by (simp add: paged_accounts paged_keys daveKeys_def)
  have kr: "keyRow pagedEnv dave (concat (map Items (pagedKeys dave))) = daveRow"
    unfolding paged_keys
    by (simp add: keyRow_def daveKeys_def dave_def daveRow_def demoKey_def paged_format)
  have rc: "reportRow pagedEnv pagedKeys carol = Some carolRow"
    unfolding reportRow_def paged_keys carol_kept
    by (simp add: keyRow_def carol_def carolRow_def demoKey_def paged_format)
  have w: "1 \<le> numOfWorker demoOpts" "CreateFile pagedEnv (outputFile demoOpts) = None"
    "\<forall>r. WriteRecord pagedEnv r = None" "FlushError pagedEnv = None"
    by (simp_all add: demoOpts_simps pagedEnv_def demoEnv_def)
  with t have ex: "\<exists>sched rows. mainProgram pagedEnv demoOpts Map.empty sched
                        = Some (None, [''output.csv'' \<mapsto> rows])"
    by (simp add: demoOpts_simps)
  from cfg csvf v paged_accounts(1) paged_serves paged_keys en main ms rc bl rd kr w ex
  show ?thesis by simp
qed

section \<open>Failures of the remote calls\<close>

lemma runPool_append:
  "runPool env W items s (xs @ ys) =
     (case runPool env W items s xs of None \<Rightarrow> None | Some s' \<Rightarrow> runPool env W items s' ys)"
  by (induction xs arbitrary: s) (auto split: option.splits)

lemma listing_not_returned:
  assumes run: "runPool env W items initialPool sched = Some s"
    and k: "k < length (workers s)" "workers s ! k = Listing i u"
  shows "pc s \<noteq> Returned \<and> u \<in> set items"
proof -
  from poolInv_reachable [OF run] have acc: "accounted (length items) s"
    and tag: "wellTagged env items s"
    by (simp_all add: poolInv_def)
  from k have w: "Listing i u \<in> set (workers s)" by (metis nth_mem)
  have "held (Listing i u) \<noteq> {#}" by simp
  with w have "heldTags (workers s) \<noteq> {#}"
    unfolding heldTags_empty_iff by blast
  with returned_drained [OF acc] have "pc s \<noteq> Returned"
    by (cases "pc s") auto
  moreover from tag w have "u \<in> set items"
    by (auto simp: wellTagged_def)
  ultimately show ?thesis by simp
qed

lemma failed_listing_exits:
  assumes run: "runPool env W items initialPool sched = Some s"
    and live: "exited s = None"
    and k: "k < length (workers s)" "workers s ! k = Listing i u"
    and w: "workerItem env u = Some (tr, Inl x)"
  shows "runPool env W items initialPool (sched @ [Worker k]) = Some (s\<lparr>exited := Some x\<rparr>)"
proof -
  from listing_not_returned [OF run k] have "pc s \<noteq> Returned" by simp
  with live k w have "step env W items s (Worker k) = Some (s\<lparr>exited := Some x\<rparr>)"
    by (simp add: step_def workerStep_def)
  with run show ?thesis by (simp add: runPool_append)
qed

lemma enumeration_read:
  assumes "LoadDefaultConfig env (awsProfileName opts) = None"
    and "OpenFile env (accountListFile opts) = Inr (map (\<lambda>g. Record (Some g)) rs)"
    and "\<forall>g \<in> set rs. validateCSVAccountRoleData (Some g) = None"
  shows "enumeration env opts = enumerateAccounts env rs [] []"
  using assms readRecords_all_good [of rs "[]"]
  by (simp add: enumeration_def getAccountRoleListFromCSV_def)

lemma never_succeeds:
  assumes en: "enumeration env opts = Some (tr, Inr items)"
    and u: "u \<in> set items" and w: "workerItem env u = Some (tr', Inl x)"
    and m: "mainProgram env opts fs sched = Some r"
  shows "\<exists>y. r = (Some y, fs) \<and> (\<exists>u' \<in> set items. \<exists>tr''. workerItem env u' = Some (tr'', Inl y))"
proof -
  from m en obtain s where run: "runPool env (numOfWorker opts) items initialPool sched = Some s"
    by (auto simp: mainProgram_def split: option.splits)
  show ?thesis
  proof (cases "exited s")
    case (Some y)
    from runPool_abort [OF poolInv_initial _ run Some]
    have "\<exists>u' \<in> set items. \<exists>tr''. workerItem env u' = Some (tr'', Inl y)"
      by (simp add: initialPool_def)
    moreover from m en run Some have "r = (Some y, fs)" by (simp add: mainProgram_def)
    ultimately show ?thesis by blast
  next
    case None
    with m en run have ret: "pc s = Returned"
      by (auto simp: mainProgram_def split: if_splits)
    from u obtain i where "i < length items" "items ! i = u"
      by (auto simp: in_set_conv_nth)
    with returned_all [OF run ret] w show ?thesis by fastforce
  qed
qed

lemma some_run_aborts:
  assumes en: "enumeration env opts = Some (tr, Inr items)"
    and u: "u \<in> set items" and w: "workerItem env u = Some (tr', Inl x)"
    and workers: "1 \<le> numOfWorker opts"
    and returns: "\<forall>u' \<in> set items. workerItem env u' \<noteq> None"
  shows "\<exists>sched y. mainProgram env opts fs sched = Some (Some y, fs)"
proof -
  from workers have "items \<noteq> [] \<longrightarrow> 1 \<le> numOfWorker opts" by simp
  from pool_completes [OF poolInv_initial this returns]
  obtain sched s where run: "runPool env (numOfWorker opts) items initialPool sched = Some s"
    and fin: "pc s = Returned \<or> exited s \<noteq> None"
    by blast
  have "exited s \<noteq> None"
  proof
    assume live: "exited s = None"
    with fin have ret: "pc s = Returned" by simp
    from u obtain i where "i < length items" "items ! i = u"
      by (auto simp: in_set_conv_nth)
    with returned_all [OF run ret] w show False by fastforce
  qed
  then obtain y where "exited s = Some y" by blast
  with en run have "mainProgram env opts fs sched = Some (Some y, fs)"
    by (simp add: mainProgram_def)
  then show ?thesis by blast
qed

text \<open>
  C7, as amended. Let the account list hold valid records and the services serve the
  accounts before the record \<open>r\<close>. If the role assumption for \<open>r\<close> fails, or the user
  listing of its account fails after some pages, the enumeration ends there: the failed
  call is made once and is the last call, and under every schedule the program ends in
  the fatal entry, with the files as they were. If the key listing of an enumerated user
  fails after some pages, the worker's listing ends with the failed call, made once, as
  its last call; in any state in which a worker is listing that user the next step of
  the worker ends the process in the fatal entry, after which no goroutine takes a step;
  no run of the program ends without an abort, every run that ends leaves the files as
  they were, and with a worker, and key listings that return, there is a run that ends.
  The entry names the operation and carries the text of the error; to the entry of the
  role assumption the program adds the role ARN, to the entries of the two listings it
  adds nothing. Conversely every abort of the enumeration or of the pool is such an
  entry (or a panic), and whenever the program ends in an abort the files are as they
  were, unless the abort is the failure to write the report itself.
\<close>

theorem remote_failure_is_fatal:
  "(LoadDefaultConfig env (awsProfileName opts) = None \<longrightarrow>
    OpenFile env (accountListFile opts) = Inr (map (\<lambda>g. Record (Some g)) (rs @ r # rest)) \<longrightarrow>
    (\<forall>g \<in> set (rs @ r # rest). validateCSVAccountRoleData (Some g) = None) \<longrightarrow>
    servesAccounts env rs accts \<longrightarrow> getRoleARN r = Some roleARN \<longrightarrow>
      (AssumeRole env roleARN = Inl err \<longrightarrow>
         enumeration env opts =
           Some (listingCalls rs accts @ [AssumeRoleCall roleARN],
                 Inl (Fatal \<lparr>message = ''error when doing assume role'',
                             zapFields = [(''role_arn'', roleARN), (''error'', err)]\<rparr>))
         \<and> (\<forall>fs sched. mainProgram env opts fs sched =
               Some (Some (Fatal \<lparr>message = ''error when doing assume role'',
                                   zapFields = [(''role_arn'', roleARN), (''error'', err)]\<rparr>),
                     fs)))
      \<and> (AssumeRole env roleARN = Inr creds \<longrightarrow> LoadAssumedConfig env creds = None \<longrightarrow>
          usersFailAfter env creds None pages err \<longrightarrow>
         enumeration env opts =
           Some (listingCalls rs accts @ AssumeRoleCall roleARN
                   # map (ListUsersCall creds) (None # map Marker pages),
                 Inl (Fatal \<lparr>message = ''error when listing user'',
                             zapFields = [(''error'', err)]\<rparr>))
         \<and> (\<forall>fs sched. mainProgram env opts fs sched =
               Some (Some (Fatal \<lparr>message = ''error when listing user'',
                                   zapFields = [(''error'', err)]\<rparr>), fs))))
   \<and> (enumeration env opts = Some (tr, Inr items) \<longrightarrow> u \<in> set items \<longrightarrow>
       keysFailAfter env u None keyPages err \<longrightarrow>
         workerItem env u =
           Some (map (ListAccessKeysCall (iamClient u) (inputUser.name u))
                     (None # map Marker keyPages),
                 Inl (Fatal \<lparr>message = ''error when listing access key, '' @ err,
                             zapFields = []\<rparr>))
         \<and> (\<forall>fs sched s k i.
               runPool env (numOfWorker opts) items initialPool sched = Some s \<longrightarrow>
               exited s = None \<longrightarrow> k < length (workers s) \<longrightarrow>
               workers s ! k = Listing i u \<longrightarrow>
                 runPool env (numOfWorker opts) items initialPool (sched @ [Worker k]) =
                   Some (s\<lparr>exited := Some (Fatal \<lparr>message = ''error when listing access key, '' @ err,
                                                    zapFields = []\<rparr>)\<rparr>)
                 \<and> (\<forall>a. step env (numOfWorker opts) items
                            (s\<lparr>exited := Some (Fatal \<lparr>message = ''error when listing access key, '' @ err,
                                                      zapFields = []\<rparr>)\<rparr>) a = None)
                 \<and> mainProgram env opts fs (sched @ [Worker k]) =
                     Some (Some (Fatal \<lparr>message = ''error when listing access key, '' @ err,
                                         zapFields = []\<rparr>), fs))
         \<and> (\<forall>fs sched res. mainProgram env opts fs sched = Some res \<longrightarrow>
               (\<exists>y. res = (Some y, fs)
                  \<and> (\<exists>u' \<in> set items. \<exists>tr''. workerItem env u' = Some (tr'', Inl y))))
         \<and> (1 \<le> numOfWorker opts \<longrightarrow> (\<forall>u' \<in> set items. workerItem env u' \<noteq> None) \<longrightarrow>
               (\<forall>fs. \<exists>sched y. mainProgram env opts fs sched = Some (Some y, fs))))
   \<and> (enumerateAccounts env rs' tr0 users = Some (tr', Inl x) \<longrightarrow> enumerationAbort env tr' x)
   \<and> (workerItem env u = Some (tr', Inl x) \<longrightarrow>
        (\<exists>marker err before.
           ListAccessKeys env (iamClient u) (inputUser.name u) marker = Inl err
           \<and> tr' = before @ [ListAccessKeysCall (iamClient u) (inputUser.name u) marker]
           \<and> x = Fatal \<lparr>message = ''error when listing access key, '' @ err,
                         zapFields = []\<rparr>))
   \<and> (runPool env W items initialPool sched = Some s \<longrightarrow> exited s = Some x \<longrightarrow>
        (\<exists>u \<in> set items. \<exists>tr. workerItem env u = Some (tr, Inl x))
        \<and> (\<forall>a. step env W items s a = None))
   \<and> (mainProgram env opts fs sched = Some (Some x, fs') \<longrightarrow>
        fs' = fs
        \<or> (\<exists>err. x = Fatal \<lparr>message = ''error when writing records to CSV file'',
                               zapFields = [(''error'', err)]\<rparr>))"
proof (intro conjI impI allI)
  assume cfg: "LoadDefaultConfig env (awsProfileName opts) = None"
    and csvf: "OpenFile env (accountListFile opts)
                 = Inr (map (\<lambda>g. Record (Some g)) (rs @ r # rest))"
    and valid: "\<forall>g \<in> set (rs @ r # rest). validateCSVAccountRoleData (Some g) = None"
    and served: "servesAccounts env rs accts" and arn: "getRoleARN r = Some roleARN"
  from getRoleARN_Some [OF arn] have a: "getAccountId r = Some (hd r)" by simp
  have en: "enumeration env opts =
              enumerateAccounts env (r # rest) (listingCalls rs accts) (heldUsers rs accts)"
    using enumeration_read [OF cfg csvf valid]
      enumerateAccounts_served [OF served, of "r # rest" "[]" "[]"]
    by simp
  {
    assume "AssumeRole env roleARN = Inl err"
    with en a arn show e1: "enumeration env opts =
           Some (listingCalls rs accts @ [AssumeRoleCall roleARN],
                 Inl (Fatal \<lparr>message = ''error when doing assume role'',
                             zapFields = [(''role_arn'', roleARN), (''error'', err)]\<rparr>))"
      by simp
    fix fs sched
    from e1 show "mainProgram env opts fs sched =
               Some (Some (Fatal \<lparr>message = ''error when doing assume role'',
                                   zapFields = [(''role_arn'', roleARN), (''error'', err)]\<rparr>),
                     fs)"
      by (simp add: mainProgram_def)
  }
  {
    assume "AssumeRole env roleARN = Inr creds" "LoadAssumedConfig env creds = None"
      and "usersFailAfter env creds None pages err"
    with en a arn
      listUsersLoop_fails [of env creds None pages err "hd r"
        "listingCalls rs accts @ [AssumeRoleCall roleARN]" "heldUsers rs accts"]
    show e2: "enumeration env opts =
           Some (listingCalls rs accts @ AssumeRoleCall roleARN
                   # map (ListUsersCall creds) (None # map Marker pages),
                 Inl (Fatal \<lparr>message = ''error when listing user'',
                             zapFields = [(''error'', err)]\<rparr>))"
      by simp
    fix fs sched
    from e2 show "mainProgram env opts fs sched =
               Some (Some (Fatal \<lparr>message = ''error when listing user'',
                                   zapFields = [(''error'', err)]\<rparr>), fs)"
      by (simp add: mainProgram_def)
  }
next
  assume en: "enumeration env opts = Some (tr, Inr items)" and u: "u \<in> set items"
    and kf: "keysFailAfter env u None keyPages err"
  let ?x = "Fatal \<lparr>message = ''error when listing access key, '' @ err, zapFields = []\<rparr>"
  from listAccessKeysLoop_fails [OF kf, of "[]" "[]"]
  show w: "workerItem env u =
           Some (map (ListAccessKeysCall (iamClient u) (inputUser.name u))
                     (None # map Marker keyPages), Inl ?x)"
    by (simp add: workerItem_def)
  {
    fix fs sched s k i
    assume run: "runPool env (numOfWorker opts) items initialPool sched = Some s"
      and live: "exited s = None" and k: "k < length (workers s)"
      and l: "workers s ! k = Listing i u"
    from failed_listing_exits [OF run live k l w]
    show r: "runPool env (numOfWorker opts) items initialPool (sched @ [Worker k]) =
                   Some (s\<lparr>exited := Some ?x\<rparr>)" .
    show "step env (numOfWorker opts) items (s\<lparr>exited := Some ?x\<rparr>) a = None" for a
      by (simp add: step_def)
    from en r show "mainProgram env opts fs (sched @ [Worker k]) = Some (Some ?x, fs)"
      by (simp add: mainProgram_def)
  }
  {
    fix fs sched res
    assume "mainProgram env opts fs sched = Some res"
    from never_succeeds [OF en u w this]
    show "\<exists>y. res = (Some y, fs)
                  \<and> (\<exists>u' \<in> set items. \<exists>tr''. workerItem env u' = Some (tr'', Inl y))" .
  }
  {
    fix fs
    assume "1 \<le> numOfWorker opts" "\<forall>u' \<in> set items. workerItem env u' \<noteq> None"
    from some_run_aborts [OF en u w this]
    show "\<exists>sched y. mainProgram env opts fs sched = Some (Some y, fs)" .
  }
next
  assume "enumerateAccounts env rs' tr0 users = Some (tr', Inl x)"
  then show "enumerationAbort env tr' x" by (rule enumerateAccounts_abort)
next
  assume "workerItem env u = Some (tr', Inl x)"
  from workerItem_shape [OF this]
  show "\<exists>marker err before.
           ListAccessKeys env (iamClient u) (inputUser.name u) marker = Inl err
           \<and> tr' = before @ [ListAccessKeysCall (iamClient u) (inputUser.name u) marker]
           \<and> x = Fatal \<lparr>message = ''error when listing access key, '' @ err,
                         zapFields = []\<rparr>"
    by (auto simp: keysLoopShape_def)
next
  assume run: "runPool env W items initialPool sched = Some s" and ex: "exited s = Some x"
  from runPool_abort [OF poolInv_initial _ run ex]
  show "\<exists>u \<in> set items. \<exists>tr. workerItem env u = Some (tr, Inl x)"
    by (simp add: initialPool_def)
  from ex show "step env W items s a = None" for a
    by (simp add: step_after_exit)
next
  assume "mainProgram env opts fs sched = Some (Some x, fs')"
  then show "fs' = fs
        \<or> (\<exists>err. x = Fatal \<lparr>message = ''error when writing records to CSV file'',
                               zapFields = [(''error'', err)]\<rparr>)"
    by (rule mainProgram_abort_files)
qed

section \<open>The example failures\<close>

lemma second_serves:
  "servesAccounts secondEnv [[''111111111111'', ''ReadOnly'']] [(demoCreds, [demoPage])]"
  "listingCalls [[''111111111111'', ''ReadOnly'']] [(demoCreds, [demoPage])]
     = [AssumeRoleCall demoARN, ListUsersCall demoCreds None]"
  by (simp_all add: getRoleARN_def secondEnv_def demoEnv_def demoPage_def demoARN_def
      requested_def)

lemma taken_run:
  "runPool brokenKeysEnv 2 [alice, bob] initialPool takenSchedule = Some takenState"
  by (simp add: takenSchedule_def takenState_def step_def mainStep_def workerStep_def
      initialPool_def)

lemma brokenKeys_enumeration:
  "enumeration brokenKeysEnv demoOpts =
     Some ([AssumeRoleCall demoARN, ListUsersCall demoCreds None], Inr [alice, bob])"
proof -
  have "listUsersLoop brokenKeysEnv ''111111111111'' demoCreds None [AssumeRoleCall demoARN] [] =
          Some ([AssumeRoleCall demoARN, ListUsersCall demoCreds None], Inr [alice, bob])"
    by (subst listUsersLoop.simps) (simp add: brokenKeysEnv_def demoEnv_def alice_def bob_def)
  then show ?thesis
    by (simp add: enumeration_def getAccountRoleListFromCSV_def validateCSVAccountRoleData_def
        getAccountId_def getRoleARN_def brokenKeysEnv_def demoEnv_def demoOpts_def demoARN_def)
qed

theorem remote_failure_is_fatal_witness:
  "LoadDefaultConfig secondEnv (awsProfileName demoOpts) = None
   \<and> OpenFile secondEnv (accountListFile demoOpts)
       = Inr [Record (Some [''111111111111'', ''ReadOnly'']),
              Record (Some [''222222222222'', ''ReadOnly''])]
   \<and> validateCSVAccountRoleData (Some [''222222222222'', ''ReadOnly'']) = None
   \<and> servesAccounts secondEnv [[''111111111111'', ''ReadOnly'']] [(demoCreds, [demoPage])]
   \<and> getRoleARN [''222222222222'', ''ReadOnly''] = Some otherARN
   \<and> AssumeRole secondEnv otherARN = Inl ''AccessDenied''
   \<and> enumeration secondEnv demoOpts =
       Some ([AssumeRoleCall demoARN, ListUsersCall demoCreds None, AssumeRoleCall otherARN],
             Inl secondFatal)
   \<and> (\<forall>fs sched. mainProgram secondEnv demoOpts fs sched = Some (Some secondFatal, fs))
   \<and> enumerationAbort secondEnv
         [AssumeRoleCall demoARN, ListUsersCall demoCreds None, AssumeRoleCall otherARN]
         secondFatal
   \<and> AssumeRole brokenUsersEnv demoARN = Inr demoCreds
   \<and> usersFailAfter brokenUsersEnv demoCreds None [carolPage] ''request send failed''
   \<and> enumeration brokenUsersEnv demoOpts =
       Some ([AssumeRoleCall demoARN, ListUsersCall demoCreds None,
              ListUsersCall demoCreds (Some ''m1'')], Inl deniedFatal)
   \<and> (\<forall>fs sched. mainProgram brokenUsersEnv demoOpts fs sched = Some (Some deniedFatal, fs))
   \<and> enumeration brokenKeysEnv demoOpts =
       Some ([AssumeRoleCall demoARN, ListUsersCall demoCreds None], Inr [alice, bob])
   \<and> keysFailAfter brokenKeysEnv alice None [firstKeyPage] ''Throttling''
   \<and> workerItem brokenKeysEnv alice =
       Some ([ListAccessKeysCall demoCreds ''alice'' None,
              ListAccessKeysCall demoCreds ''alice'' (Some ''n1'')], Inl throttledFatal)
   \<and> runPool brokenKeysEnv 2 [alice, bob] initialPool takenSchedule = Some takenState
   \<and> exited takenState = None \<and> workers takenState ! 0 = Listing 0 alice
   \<and> runPool brokenKeysEnv 2 [alice, bob] initialPool (takenSchedule @ [Worker 0])
       = Some (takenState\<lparr>exited := Some throttledFatal\<rparr>)
   \<and> step brokenKeysEnv 2 [alice, bob] (takenState\<lparr>exited := Some throttledFatal\<rparr>) Main = None
   \<and> mainProgram brokenKeysEnv demoOpts Map.empty (takenSchedule @ [Worker 0])
       = Some (Some throttledFatal, Map.empty)
   \<and> 1 \<le> numOfWorker demoOpts
   \<and> workerItem brokenKeysEnv bob \<noteq> None
   \<and> (\<exists>sched y. mainProgram brokenKeysEnv demoOpts Map.empty sched = Some (Some y, Map.empty))"
proof -
  let ?r1 = "[''111111111111'', ''ReadOnly'']" and ?r2 = "[''222222222222'', ''ReadOnly'']"
  have v: "validateCSVAccountRoleData (Some ?r1) = None"
    "validateCSVAccountRoleData (Some ?r2) = None"
    by (simp_all add: validateCSVAccountRoleData_def)
  \<comment> \<open>the role assumption of the second account is refused\<close>
  have a1: "LoadDefaultConfig secondEnv (awsProfileName demoOpts) = None"
    and a2: "OpenFile secondEnv (accountListFile demoOpts)
               = Inr (map (\<lambda>g. Record (Some g)) ([?r1] @ ?r2 # []))"
    and a3: "\<forall>g \<in> set ([?r1] @ ?r2 # []). validateCSVAccountRoleData (Some g) = None"
    and a4: "getRoleARN ?r2 = Some otherARN"
    and a5: "AssumeRole secondEnv otherARN = Inl ''AccessDenied''"
    using v by (simp_all add: secondEnv_def demoEnv_def getRoleARN_def otherARN_def demoARN_def)
  note tA = remote_failure_is_fatal [where env = secondEnv and opts = demoOpts
      and rs = "[?r1]" and r = ?r2 and rest = "[]" and accts = "[(demoCreds, [demoPage])]"
      and roleARN = otherARN and err = "''AccessDenied''", THEN conjunct1, rule_format,
      OF a1 a2 _ second_serves(1) a4, THEN conjunct1, rule_format, OF _ a5,
      unfolded second_serves(2)]
  have eA: "enumeration secondEnv demoOpts =
       Some ([AssumeRoleCall demoARN, ListUsersCall demoCreds None, AssumeRoleCall otherARN],
             Inl secondFatal)"
    and mA: "\<forall>fs sched. mainProgram secondEnv demoOpts fs sched = Some (Some secondFatal, fs)"
    using tA a3 by (simp_all add: secondFatal_def)
  have "enumerateAccounts secondEnv [?r1, ?r2] [] [] =
       Some ([AssumeRoleCall demoARN, ListUsersCall demoCreds None, AssumeRoleCall otherARN],
             Inl secondFatal)"
    using eA enumeration_read [of secondEnv demoOpts "[?r1, ?r2]"] a1 a2 a3 by simp
  with remote_failure_is_fatal [where env = secondEnv and rs' = "[?r1, ?r2]" and ?tr0.0 = "[]"
      and users = "[]" and x = secondFatal
      and tr' = "[AssumeRoleCall demoARN, ListUsersCall demoCreds None, AssumeRoleCall otherARN]"]
  have cA: "enumerationAbort secondEnv
         [AssumeRoleCall demoARN, ListUsersCall demoCreds None, AssumeRoleCall otherARN]
         secondFatal"
    by blast
  \<comment> \<open>the user listing fails on its second request\<close>
  have b1: "LoadDefaultConfig brokenUsersEnv (awsProfileName demoOpts) = None"
    and b2: "OpenFile brokenUsersEnv (accountListFile demoOpts)
               = Inr (map (\<lambda>g. Record (Some g)) ([] @ ?r1 # []))"
    and b3: "\<forall>g \<in> set ([] @ ?r1 # []). validateCSVAccountRoleData (Some g) = None"
    and b4: "getRoleARN ?r1 = Some demoARN"
    and b5: "AssumeRole brokenUsersEnv demoARN = Inr demoCreds"
    and b6: "LoadAssumedConfig brokenUsersEnv demoCreds = None"
    and b7: "usersFailAfter brokenUsersEnv demoCreds None [carolPage] ''request send failed''"
    using v by (simp_all add: brokenUsersEnv_def demoEnv_def getRoleARN_def demoARN_def
        carolPage_def)
  have b0: "servesAccounts brokenUsersEnv [] []" by simp
  note tB = remote_failure_is_fatal [where env = brokenUsersEnv and opts = demoOpts
      and rs = "[]" and r = ?r1 and rest = "[]" and accts = "[]"
      and roleARN = demoARN and err = "''request send failed''" and creds = demoCreds
      and pages = "[carolPage]", THEN conjunct1, rule_format,
      OF b1 b2 _ b0 b4, THEN conjunct2, rule_format, OF _ b5 b6 b7]
  have eB: "enumeration brokenUsersEnv demoOpts =
       Some ([AssumeRoleCall demoARN, ListUsersCall demoCreds None,
              ListUsersCall demoCreds (Some ''m1'')], Inl deniedFatal)"
    and mB: "\<forall>fs sched. mainProgram brokenUsersEnv demoOpts fs sched
                = Some (Some deniedFatal, fs)"
    using tB b3 by (simp_all add: deniedFatal_def carolPage_def)
  \<comment> \<open>the key listing of alice fails on its second request\<close>
  have c1: "alice \<in> set [alice, bob]" by simp
  have c2: "keysFailAfter brokenKeysEnv alice None [firstKeyPage] ''Throttling''"
    by (simp add: brokenKeysEnv_def demoEnv_def firstKeyPage_def)
  note tC = remote_failure_is_fatal [where env = brokenKeysEnv and opts = demoOpts
      and items = "[alice, bob]" and u = alice and keyPages = "[firstKeyPage]"
      and err = "''Throttling''", THEN conjunct2, THEN conjunct1, rule_format,
      OF brokenKeys_enumeration c1 c2]
  from tC have wC: "workerItem brokenKeysEnv alice =
       Some ([ListAccessKeysCall demoCreds ''alice'' None,
              ListAccessKeysCall demoCreds ''alice'' (Some ''n1'')], Inl throttledFatal)"
    by (simp add: throttledFatal_def alice_def firstKeyPage_def)
  have s0: "exited takenState = None" "0 < length (workers takenState)"
    "workers takenState ! 0 = Listing 0 alice"
    by (simp_all add: takenState_def)
  have run: "runPool brokenKeysEnv (numOfWorker demoOpts) [alice, bob] initialPool takenSchedule
               = Some takenState"
    using taken_run by (simp add: demoOpts_simps)
  from tC [THEN conjunct2, THEN conjunct1, rule_format, OF run s0, of Map.empty]
  have rC: "runPool brokenKeysEnv 2 [alice, bob] initialPool (takenSchedule @ [Worker 0])
       = Some (takenState\<lparr>exited := Some throttledFatal\<rparr>)"
    and stC: "step brokenKeysEnv 2 [alice, bob] (takenState\<lparr>exited := Some throttledFatal\<rparr>) Main
                = None"
    and mC: "mainProgram brokenKeysEnv demoOpts Map.empty (takenSchedule @ [Worker 0])
       = Some (Some throttledFatal, Map.empty)"
    by (simp_all add: throttledFatal_def demoOpts_simps)
  have wb: "workerItem brokenKeysEnv bob \<noteq> None"
    using listAccessKeysLoop_fails [of brokenKeysEnv bob None "[firstKeyPage]" "''Throttling''"
        "[]" "[]"]
    by (simp add: workerItem_def brokenKeysEnv_def demoEnv_def firstKeyPage_def)
  with wC have "\<forall>u' \<in> set [alice, bob]. workerItem brokenKeysEnv u' \<noteq> None" by simp
  with tC have exC: "\<exists>sched y. mainProgram brokenKeysEnv demoOpts Map.empty sched
                        = Some (Some y, Map.empty)"
    by (simp add: demoOpts_simps)
  from v a1 a2 second_serves(1) a4 a5 eA mA cA b5 b7 eB mB brokenKeys_enumeration c2 wC
    taken_run s0 rC stC mC wb exC
  show ?thesis by (simp add: demoOpts_simps)
qed

end
